theory Spec2Isabelle
  imports Main "HOL-Library.Word"
begin

unbundle bit_operations_syntax

section \<open>Data model\<close>

text \<open>
  The UTXO view of bcoin: \<open>CoinEntry\<close> (lib/coins/coinentry.js), \<open>Coins\<close>
  (lib/coins/coins.js), \<open>UndoCoins\<close> (lib/coins/undocoins.js) and \<open>CoinView\<close>
  (lib/coins/coinview.js).

  Conventions of the embedding.
  \<^item> JavaScript \<open>undefined\<close> and \<open>null\<close> are both \<open>None\<close>: the code only ever tests
    them with \<open>!x\<close> or \<open>x != null\<close>, which do not tell them apart, and a property
    access throws a TypeError on either.
  \<^item> An exception is \<open>Inl\<close> of the error; the state at the throw is not tracked.
    \<open>DecodeError\<close> stands for a read past the end of a buffer or a codec failure.
  \<^item> Objects are values. A \<open>CoinEntry\<close> object is mutated in one place only
    (\<open>Coins.spend\<close> sets \<open>spent\<close>), before it is pushed onto the undo stack, so the
    copy in the bucket and the copy on the stack agree from then on. A \<open>Coins\<close>
    bucket reached through the view's map is written back under its key after each
    mutation.
  \<^item> Output indices are \<open>nat\<close> (a uint32 in an outpoint), so \<open>assert(index >= 0)\<close>
    holds for every index of that type.
\<close>

type_synonym byte = "8 word"
type_synonym hash = string

datatype error = TypeError | AssertionError | DecodeError

text \<open>
  Modelled from the spec: the script class (lib/script/script.js) is not part of the
  sources at hand; the spec says a script is bytes and "exposes
  \<open>isUnspendable() \<rightarrow> bool\<close>". A script is its bytes together with the answer of that
  method.
\<close>

datatype script = Script (code: "byte list") (isUnspendable: bool)

record txoutput =
  out_value :: nat
  out_script :: script

text \<open>\<open>new Output()\<close>: value 0 and an empty script.\<close>

definition Output_new :: txoutput where
  "Output_new = \<lparr>out_value = 0, out_script = Script [] False\<rparr>"

record outpoint =
  hash :: hash
  index :: nat

record input =
  prevout :: outpoint

text \<open>
  A transaction, as far as the view reads it: \<open>tx.hash('hex')\<close>, \<open>tx.version\<close>,
  \<open>tx.isCoinbase()\<close>, \<open>tx.inputs\<close> and \<open>tx.outputs\<close>.
\<close>

record tx =
  tx_hash :: hash
  tx_version :: nat
  tx_isCoinbase :: bool
  inputs :: "input list"
  outputs :: "txoutput list"

text \<open>The fields a \<open>Coin\<close> (lib/primitives/coin.js) carries, as \<open>toCoin\<close> fills them.\<close>

record coin =
  coin_version :: nat
  coin_height :: int
  coin_coinbase :: bool
  coin_script :: script
  coin_value :: nat
  coin_hash :: hash
  coin_index :: nat

record coin_entry =
  version :: nat
  height :: int
  coinbase :: bool
  entry_output :: txoutput
  spent :: bool
  raw :: "byte list option"

text \<open>A slot of \<open>Coins.outputs\<close>: an entry, or \<open>None\<close> for a hole.\<close>

type_synonym slots = "coin_entry option list"

record coins =
  coins_hash :: hash
  coins_outputs :: slots

section \<open>CoinEntry: construction\<close>

definition CoinEntry_new :: coin_entry where
  "CoinEntry_new =
     \<lparr>version = 1, height = - 1, coinbase = False, entry_output = Output_new,
      spent = False, raw = None\<rparr>"

definition CoinEntry_toOutput :: "coin_entry \<Rightarrow> txoutput" where
  "CoinEntry_toOutput e = entry_output e"

definition CoinEntry_toCoin :: "coin_entry \<Rightarrow> hash \<Rightarrow> nat \<Rightarrow> coin" where
  "CoinEntry_toCoin e h i =
     \<lparr>coin_version = version e, coin_height = height e, coin_coinbase = coinbase e,
      coin_script = out_script (entry_output e), coin_value = out_value (entry_output e),
      coin_hash = h, coin_index = i\<rparr>"

definition CoinEntry_fromOutput :: "txoutput \<Rightarrow> coin_entry" where
  "CoinEntry_fromOutput out = CoinEntry_new\<lparr>entry_output := out\<rparr>"

definition CoinEntry_fromCoin :: "coin \<Rightarrow> coin_entry" where
  "CoinEntry_fromCoin c =
     CoinEntry_new\<lparr>version := coin_version c, height := coin_height c,
       coinbase := coin_coinbase c,
       entry_output := \<lparr>out_value = coin_value c, out_script = coin_script c\<rparr>\<rparr>"

text \<open>\<open>fromTX\<close> asserts that the index is one of the transaction's outputs.\<close>

definition CoinEntry_fromTX :: "tx \<Rightarrow> nat \<Rightarrow> int \<Rightarrow> error + coin_entry" where
  "CoinEntry_fromTX t i h =
     (if i < length (outputs t)
      then Inr (CoinEntry_new\<lparr>version := tx_version t, height := h,
                  coinbase := tx_isCoinbase t, entry_output := outputs t ! i\<rparr>)
      else Inl AssertionError)"

section \<open>Coins\<close>

text \<open>
  Modelled from the spec: coins.js builds its entries with \<open>RawCoin\<close> (./rawcoin), which
  is not part of the sources at hand. The spec's \<open>Coins\<close> is a collection of
  \<open>CoinEntry\<close> slots, and the view and the undo stack handle the same objects as
  \<open>CoinEntry\<close>; \<open>RawCoin.fromOutput\<close>, \<open>RawCoin.fromCoin\<close> and \<open>RawCoin.fromTX\<close>
  are taken to be the constructors of \<open>CoinEntry\<close>.
\<close>

text \<open>\<open>encoding.NULL_HASH\<close>: 32 zero bytes in hex.\<close>

definition NULL_HASH :: hash where
  "NULL_HASH = replicate 64 (CHR ''0'')"

definition Coins_new :: coins where
  "Coins_new = \<lparr>coins_hash = NULL_HASH, coins_outputs = []\<rparr>"

text \<open>
  \<open>add\<close>: pad with holes up to the index, assert the slot is free, store. The padding
  loop pushes \<open>index + 1 - length\<close> holes when the sequence is too short.
\<close>

definition Coins_add :: "coins \<Rightarrow> nat \<Rightarrow> coin_entry \<Rightarrow> error + coins" where
  "Coins_add c i e =
     (let outs = coins_outputs c;
          padded = outs @ replicate (Suc i - length outs) None
      in if padded ! i \<noteq> None then Inl AssertionError
         else Inr (c\<lparr>coins_outputs := padded[i := Some e]\<rparr>))"

definition Coins_addOutput :: "coins \<Rightarrow> nat \<Rightarrow> txoutput \<Rightarrow> error + coins" where
  "Coins_addOutput c i out =
     (if isUnspendable (out_script out) then Inl AssertionError
      else Coins_add c i (CoinEntry_fromOutput out))"

definition Coins_addCoin :: "coins \<Rightarrow> coin \<Rightarrow> error + coins" where
  "Coins_addCoin c cn =
     (if isUnspendable (coin_script cn) then Inl AssertionError
      else Coins_add c (coin_index cn) (CoinEntry_fromCoin cn))"

definition Coins_has :: "coins \<Rightarrow> nat \<Rightarrow> bool" where
  "Coins_has c i =
     (if i \<ge> length (coins_outputs c) then False
      else coins_outputs c ! i \<noteq> None)"

definition Coins_isUnspent :: "coins \<Rightarrow> nat \<Rightarrow> bool" where
  "Coins_isUnspent c i =
     (if i \<ge> length (coins_outputs c) then False
      else (case coins_outputs c ! i of
              None \<Rightarrow> False
            | Some e \<Rightarrow> if spent e then False else True))"

definition Coins_get :: "coins \<Rightarrow> nat \<Rightarrow> coin_entry option" where
  "Coins_get c i =
     (if i \<ge> length (coins_outputs c) then None
      else coins_outputs c ! i)"

text \<open>
  \<open>getOutput\<close> calls \<open>toOutput\<close> on the slot without testing it: a hole throws.
\<close>

definition Coins_getOutput :: "coins \<Rightarrow> nat \<Rightarrow> error + txoutput option" where
  "Coins_getOutput c i =
     (if i \<ge> length (coins_outputs c) then Inr None
      else (case coins_outputs c ! i of
              None \<Rightarrow> Inl TypeError
            | Some e \<Rightarrow> Inr (Some (CoinEntry_toOutput e))))"

text \<open>
  \<open>getCoin(index)\<close> is called with a number by its documentation, and with an
  \<open>Outpoint\<close> object by \<open>CoinView.getCoin\<close>. For an object, \<open>index >= length\<close>
  compares NaN and is false, \<open>this.outputs[index]\<close> looks up the property
  \<open>"[object Object]"\<close> and is undefined, and \<open>.toCoin\<close> on it throws.

  Modelled from the spec: the \<open>Outpoint\<close> class (lib/primitives/outpoint.js) is not
  part of the sources at hand; the spec gives it as the pair \<open>(hash, index)\<close>, an
  object with no numeric value of its own.
\<close>

datatype index_arg = Number nat | Object outpoint

fun Coins_getCoin :: "coins \<Rightarrow> index_arg \<Rightarrow> error + coin option" where
  "Coins_getCoin c (Number i) =
     (if i \<ge> length (coins_outputs c) then Inr None
      else (case coins_outputs c ! i of
              None \<Rightarrow> Inl TypeError
            | Some e \<Rightarrow> Inr (Some (CoinEntry_toCoin e (coins_hash c) i))))"
| "Coins_getCoin c (Object p) = Inl TypeError"

text \<open>
  \<open>spend\<close>: returns the entry, now marked spent, or nothing when the slot is missing,
  a hole, or already spent. The bucket is returned with the entry updated.
\<close>

definition Coins_spend :: "coins \<Rightarrow> nat \<Rightarrow> coin_entry option \<times> coins" where
  "Coins_spend c i =
     (case Coins_get c i of
        None \<Rightarrow> (None, c)
      | Some e \<Rightarrow>
          if spent e then (None, c)
          else (let e' = e\<lparr>spent := True\<rparr>
                in (Some e', c\<lparr>coins_outputs := (coins_outputs c)[i := Some e']\<rparr>)))"

text \<open>The loop of \<open>cleanup\<close>, from \<open>len\<close> downwards while the slot below is empty.\<close>

primrec cleanup_loop :: "slots \<Rightarrow> nat \<Rightarrow> nat" where
  "cleanup_loop outs 0 = 0"
| "cleanup_loop outs (Suc n) =
     (if outs ! n = None then cleanup_loop outs n else Suc n)"

definition Coins_cleanup :: "coins \<Rightarrow> coins" where
  "Coins_cleanup c =
     c\<lparr>coins_outputs :=
         take (cleanup_loop (coins_outputs c) (length (coins_outputs c))) (coins_outputs c)\<rparr>"

text \<open>\<open>remove\<close>: \<open>None\<close> stands for the \<open>false\<close> returned when nothing was there.\<close>

definition Coins_remove :: "coins \<Rightarrow> nat \<Rightarrow> coin_entry option \<times> coins" where
  "Coins_remove c i =
     (case Coins_get c i of
        None \<Rightarrow> (None, c)
      | Some e \<Rightarrow>
          (Some e, Coins_cleanup (c\<lparr>coins_outputs := (coins_outputs c)[i := None]\<rparr>)))"

text \<open>The loop of \<open>length\<close>, from \<open>len\<close> downwards while the slot below is not unspent.\<close>

primrec length_loop :: "coins \<Rightarrow> nat \<Rightarrow> nat" where
  "length_loop c 0 = 0"
| "length_loop c (Suc n) =
     (if \<not> Coins_isUnspent c n then length_loop c n else Suc n)"

definition Coins_length :: "coins \<Rightarrow> nat" where
  "Coins_length c = length_loop c (length (coins_outputs c))"

definition Coins_isEmpty :: "coins \<Rightarrow> bool" where
  "Coins_isEmpty c = (Coins_length c = 0)"

text \<open>
  The loop of \<open>fromTX\<close> over the output indices \<open>i, i + 1, \<dots>\<close>; \<open>n\<close> counts the
  outputs still to visit.
\<close>

primrec fromTX_loop :: "tx \<Rightarrow> int \<Rightarrow> nat \<Rightarrow> slots \<Rightarrow> nat \<Rightarrow> error + slots" where
  "fromTX_loop t h n outs 0 = Inr outs"
| "fromTX_loop t h n outs (Suc k) =
     (let i = n - Suc k in
      if isUnspendable (out_script (outputs t ! i))
      then fromTX_loop t h n (outs @ [None]) k
      else (case CoinEntry_fromTX t i h of
              Inl err \<Rightarrow> Inl err
            | Inr e \<Rightarrow> fromTX_loop t h n (outs @ [Some e]) k))"

definition Coins_fromTX :: "tx \<Rightarrow> int \<Rightarrow> error + coins" where
  "Coins_fromTX t h =
     (case fromTX_loop t h (length (outputs t)) [] (length (outputs t)) of
        Inl err \<Rightarrow> Inl err
      | Inr outs \<Rightarrow>
          Inr (Coins_cleanup \<lparr>coins_hash = tx_hash t, coins_outputs = outs\<rparr>))"

section \<open>CoinView and UndoCoins: state\<close>

text \<open>
  \<open>cv_map\<close> is \<open>view.map\<close>, an object used as a dictionary from hash strings to
  buckets; \<open>cv_undo\<close> is \<open>view.undo.items\<close>, the array of the shared \<open>UndoCoins\<close>,
  last element on top.
\<close>

record coin_view =
  cv_map :: "hash \<rightharpoonup> coins"
  cv_undo :: "coin_entry list"

definition CoinView_new :: coin_view where
  "CoinView_new = \<lparr>cv_map = Map.empty, cv_undo = []\<rparr>"

definition CoinView_get :: "coin_view \<Rightarrow> hash \<Rightarrow> coins option" where
  "CoinView_get v h = cv_map v h"

definition CoinView_has :: "coin_view \<Rightarrow> hash \<Rightarrow> bool" where
  "CoinView_has v h = (cv_map v h \<noteq> None)"

definition CoinView_add :: "coin_view \<Rightarrow> hash \<Rightarrow> coins \<Rightarrow> coin_view" where
  "CoinView_add v h c = v\<lparr>cv_map := (cv_map v)(h \<mapsto> c)\<rparr>"

definition CoinView_remove :: "coin_view \<Rightarrow> hash \<Rightarrow> bool \<times> coin_view" where
  "CoinView_remove v h =
     (case cv_map v h of
        None \<Rightarrow> (False, v)
      | Some c \<Rightarrow> (True, v\<lparr>cv_map := (cv_map v)(h := None)\<rparr>))"

definition CoinView_addTX :: "coin_view \<Rightarrow> tx \<Rightarrow> int \<Rightarrow> error + coin_view" where
  "CoinView_addTX v t h =
     (case Coins_fromTX t h of
        Inl err \<Rightarrow> Inl err
      | Inr c \<Rightarrow> Inr (CoinView_add v (tx_hash t) c))"

text \<open>
  The loop of \<open>removeTX\<close> over \<open>coins.outputs\<close>: \<open>coin.spent = true\<close> on every slot,
  with no test of the slot, so the first hole throws.
\<close>

primrec removeTX_loop :: "slots \<Rightarrow> error + slots" where
  "removeTX_loop [] = Inr []"
| "removeTX_loop (s # ss) =
     (case s of
        None \<Rightarrow> Inl TypeError
      | Some e \<Rightarrow>
          (case removeTX_loop ss of
             Inl err \<Rightarrow> Inl err
           | Inr ss' \<Rightarrow> Inr (Some (e\<lparr>spent := True\<rparr>) # ss')))"

definition CoinView_removeTX :: "coin_view \<Rightarrow> tx \<Rightarrow> int \<Rightarrow> error + coin_view" where
  "CoinView_removeTX v t h =
     (case Coins_fromTX t h of
        Inl err \<Rightarrow> Inl err
      | Inr c \<Rightarrow>
          (case removeTX_loop (coins_outputs c) of
             Inl err \<Rightarrow> Inl err
           | Inr outs \<Rightarrow> Inr (CoinView_add v (tx_hash t) (c\<lparr>coins_outputs := outs\<rparr>))))"

subsection \<open>addEntry and its callers\<close>

text \<open>
  \<open>addEntry(prevout, coin)\<close> is called with an outpoint and an entry by \<open>readCoin\<close> and
  \<open>fromFast\<close>, and as \<open>view.addEntry(outpoint.hash, outpoint.index, undo)\<close> by
  \<open>UndoCoins.apply\<close>, which binds \<open>prevout\<close> to a string and \<open>coin\<close> to a number (the
  third argument has no parameter). The arguments are therefore JavaScript values of
  one of four shapes, and the three property paths the body follows are evaluated on
  each shape:
  \<^item> \<open>prevout.hash\<close> and \<open>prevout.index\<close> are the fields of an outpoint and
    undefined on a string, a number or an entry;
  \<^item> \<open>coin.output\<close> is the output of an entry and undefined on anything else, where
    \<open>coin.output.script\<close> then throws a TypeError;
  \<^item> an undefined key of \<open>this.map\<close> is the property name \<open>"undefined"\<close>.
\<close>

datatype js_arg =
  Outpoint_arg outpoint | Entry_arg coin_entry | String_arg string | Number_arg nat

fun hash_of :: "js_arg \<Rightarrow> hash option" where
  "hash_of (Outpoint_arg p) = Some (hash p)"
| "hash_of _ = None"

fun index_of :: "js_arg \<Rightarrow> nat option" where
  "index_of (Outpoint_arg p) = Some (index p)"
| "index_of _ = None"

fun entry_of :: "js_arg \<Rightarrow> error + coin_entry" where
  "entry_of (Entry_arg e) = Inr e"
| "entry_of _ = Inl TypeError"

definition map_key :: "hash option \<Rightarrow> hash" where
  "map_key k = (case k of None \<Rightarrow> ''undefined'' | Some h \<Rightarrow> h)"

text \<open>
  With an undefined index, \<open>coins.has(undefined)\<close> is false (\<open>undefined >= length\<close> is
  false and \<open>outputs[undefined]\<close> is undefined), and \<open>coins.add(undefined, coin)\<close> fails
  its \<open>assert(index >= 0)\<close>.
\<close>

definition CoinView_addEntry ::
    "coin_view \<Rightarrow> js_arg \<Rightarrow> js_arg \<Rightarrow> error + coin_view \<times> coins option" where
  "CoinView_addEntry v prev coin =
     (let key = map_key (hash_of prev);
          (coins, v1) = (case CoinView_get v key of
                           None \<Rightarrow> (Coins_new, CoinView_add v key Coins_new)
                         | Some c \<Rightarrow> (c, v))
      in case entry_of coin of
           Inl err \<Rightarrow> Inl err
         | Inr e \<Rightarrow>
             if isUnspendable (out_script (entry_output e)) then Inr (v1, None)
             else (case index_of prev of
                     None \<Rightarrow> Inl AssertionError
                   | Some i \<Rightarrow>
                       if \<not> Coins_has coins i
                       then (case Coins_add coins i e of
                               Inl err \<Rightarrow> Inl err
                             | Inr coins' \<Rightarrow> Inr (CoinView_add v1 key coins', Some coins'))
                       else Inr (v1, Some coins)))"

definition CoinView_addCoin :: "coin_view \<Rightarrow> coin \<Rightarrow> error + coin_view \<times> coins option" where
  "CoinView_addCoin v cn =
     (let (coins, v1) = (case CoinView_get v (coin_hash cn) of
                           None \<Rightarrow> (Coins_new, CoinView_add v (coin_hash cn) Coins_new)
                         | Some c \<Rightarrow> (c, v))
      in if isUnspendable (coin_script cn) then Inr (v1, None)
         else if \<not> Coins_has coins (coin_index cn)
         then (case Coins_addCoin coins cn of
                 Inl err \<Rightarrow> Inl err
               | Inr coins' \<Rightarrow> Inr (CoinView_add v1 (coin_hash cn) coins', Some coins'))
         else Inr (v1, Some coins))"

text \<open>\<open>addOutput\<close> has no return value on any path.\<close>

definition CoinView_addOutput :: "coin_view \<Rightarrow> outpoint \<Rightarrow> txoutput \<Rightarrow> error + coin_view" where
  "CoinView_addOutput v p out =
     (let (coins, v1) = (case CoinView_get v (hash p) of
                           None \<Rightarrow> (Coins_new, CoinView_add v (hash p) Coins_new)
                         | Some c \<Rightarrow> (c, v))
      in if isUnspendable (out_script out) then Inr v1
         else if \<not> Coins_has coins (index p)
         then (case Coins_addOutput coins (index p) out of
                 Inl err \<Rightarrow> Inl err
               | Inr coins' \<Rightarrow> Inr (CoinView_add v1 (hash p) coins'))
         else Inr v1)"

subsection \<open>Spending\<close>

definition UndoCoins_push :: "coin_entry list \<Rightarrow> coin_entry \<Rightarrow> coin_entry list" where
  "UndoCoins_push items e = items @ [e]"

text \<open>
  \<open>spendFrom(coins, index)\<close>: the result, the bucket after the call and the view after
  the call. The bucket is an argument of its own; a caller that took it from the map
  stores it back.
\<close>

definition CoinView_spendFrom ::
    "coin_view \<Rightarrow> coins \<Rightarrow> nat \<Rightarrow> bool \<times> coins \<times> coin_view" where
  "CoinView_spendFrom v c i =
     (case Coins_spend c i of
        (None, c') \<Rightarrow> (False, c', v)
      | (Some e, c') \<Rightarrow> (True, c', v\<lparr>cv_undo := UndoCoins_push (cv_undo v) e\<rparr>))"

definition CoinView_spendOutput :: "coin_view \<Rightarrow> outpoint \<Rightarrow> bool \<times> coin_view" where
  "CoinView_spendOutput v p =
     (case CoinView_get v (hash p) of
        None \<Rightarrow> (False, v)
      | Some c \<Rightarrow>
          (case CoinView_spendFrom v c (index p) of
             (ok, c', v') \<Rightarrow> (ok, CoinView_add v' (hash p) c')))"

definition CoinView_removeOutput :: "coin_view \<Rightarrow> outpoint \<Rightarrow> coin_entry option \<times> coin_view" where
  "CoinView_removeOutput v p =
     (case CoinView_get v (hash p) of
        None \<Rightarrow> (None, v)
      | Some c \<Rightarrow>
          (case Coins_remove c (index p) of
             (r, c') \<Rightarrow> (r, CoinView_add v (hash p) c')))"

subsection \<open>Projections by input\<close>

definition CoinView_getEntry :: "coin_view \<Rightarrow> input \<Rightarrow> coin_entry option" where
  "CoinView_getEntry v inp =
     (case CoinView_get v (hash (prevout inp)) of
        None \<Rightarrow> None
      | Some c \<Rightarrow> Coins_get c (index (prevout inp)))"

text \<open>\<open>getCoin\<close> passes \<open>input.prevout\<close>, the outpoint object, as the index.\<close>

definition CoinView_getCoin :: "coin_view \<Rightarrow> input \<Rightarrow> error + coin option" where
  "CoinView_getCoin v inp =
     (case CoinView_get v (hash (prevout inp)) of
        None \<Rightarrow> Inr None
      | Some c \<Rightarrow> Coins_getCoin c (Object (prevout inp)))"

definition CoinView_getOutput :: "coin_view \<Rightarrow> input \<Rightarrow> error + txoutput option" where
  "CoinView_getOutput v inp =
     (case CoinView_get v (hash (prevout inp)) of
        None \<Rightarrow> Inr None
      | Some c \<Rightarrow> Coins_getOutput c (index (prevout inp)))"

definition CoinView_hasEntry :: "coin_view \<Rightarrow> input \<Rightarrow> bool" where
  "CoinView_hasEntry v inp =
     (case CoinView_get v (hash (prevout inp)) of
        None \<Rightarrow> False
      | Some c \<Rightarrow> Coins_has c (index (prevout inp)))"

subsection \<open>Read-through\<close>

text \<open>
  The backing store is its \<open>readCoin\<close>: an entry for an outpoint, or nothing. The
  coroutine awaits the store and goes on; with one owner and sequential calls that is a
  function call.
\<close>

type_synonym store = "outpoint \<Rightarrow> coin_entry option"

definition CoinView_readCoin ::
    "coin_view \<Rightarrow> store \<Rightarrow> input \<Rightarrow> error + coin_view \<times> coins option" where
  "CoinView_readCoin v db inp =
     (if \<not> CoinView_hasEntry v inp
      then (case db (prevout inp) of
              None \<Rightarrow> Inr (v, None)
            | Some e \<Rightarrow> CoinView_addEntry v (Outpoint_arg (prevout inp)) (Entry_arg e))
      else Inr (v, CoinView_get v (hash (prevout inp))))"

text \<open>
  The loop of \<open>spendInputs\<close>. The bucket that \<open>readCoin\<close> returns is the one in the map
  under the input's hash, so the spent bucket is stored back there.
\<close>

fun spendInputs_loop :: "coin_view \<Rightarrow> store \<Rightarrow> input list \<Rightarrow> error + bool \<times> coin_view" where
  "spendInputs_loop v db [] = Inr (True, v)"
| "spendInputs_loop v db (inp # rest) =
     (case CoinView_readCoin v db inp of
        Inl err \<Rightarrow> Inl err
      | Inr (v1, None) \<Rightarrow> Inr (False, v1)
      | Inr (v1, Some c) \<Rightarrow>
          (case CoinView_spendFrom v1 c (index (prevout inp)) of
             (False, c', v2) \<Rightarrow> Inr (False, v2)
           | (True, c', v2) \<Rightarrow>
               spendInputs_loop (CoinView_add v2 (hash (prevout inp)) c') db rest))"

definition CoinView_spendInputs :: "coin_view \<Rightarrow> store \<Rightarrow> tx \<Rightarrow> error + bool \<times> coin_view" where
  "CoinView_spendInputs v db t = spendInputs_loop v db (inputs t)"

subsection \<open>UndoCoins.apply\<close>

text \<open>
  \<open>apply(view, outpoint)\<close> on the stack \<open>items\<close>: pop, assert, then
  \<open>view.addEntry(outpoint.hash, outpoint.index, undo)\<close>. The result is the stack after
  the pop and the view after \<open>addEntry\<close>.
\<close>

definition UndoCoins_apply ::
    "coin_entry list \<Rightarrow> coin_view \<Rightarrow> outpoint \<Rightarrow> error + coin_entry list \<times> coin_view" where
  "UndoCoins_apply items v p =
     (if items = [] then Inl AssertionError
      else (case CoinView_addEntry v (String_arg (hash p)) (Number_arg (index p)) of
              Inl err \<Rightarrow> Inl err
            | Inr (v', r) \<Rightarrow> Inr (butlast items, v')))"

section \<open>Serialization\<close>

text \<open>
  Modelled from the spec: the buffer writer and reader (lib/utils) and the output
  compressor (lib/coins/compress) are not part of the sources at hand. The spec gives the
  layouts as \<open>uint8\<close>, \<open>uint32\<close>, \<open>varint(version)\<close> and \<open>codec-encoded(output)\<close> and
  treats the codec as opaque, exposing \<open>encode\<close>, \<open>decode\<close> and \<open>estimateSize\<close>.
  A writer is the bytes written so far and a write appends; a reader is the bytes still
  to read and a read takes from the front, or fails at the end of the buffer. A
  \<open>uint32\<close> is four bytes, least significant first. The varint and the output codec
  are parameters, collected in a record.
\<close>

record codec =
  writeVarint :: "nat \<Rightarrow> byte list"
  readVarint :: "byte list \<Rightarrow> (nat \<times> byte list) option"
  sizeVarint :: "nat \<Rightarrow> nat"
  compress_output :: "txoutput \<Rightarrow> byte list"
  decompress_output :: "byte list \<Rightarrow> (txoutput \<times> byte list) option"
  compress_size :: "txoutput \<Rightarrow> nat"

definition writeU8 :: "byte list \<Rightarrow> byte \<Rightarrow> byte list" where
  "writeU8 bw b = bw @ [b]"

fun readU8 :: "byte list \<Rightarrow> (byte \<times> byte list) option" where
  "readU8 [] = None"
| "readU8 (b # br) = Some (b, br)"

definition writeU32 :: "byte list \<Rightarrow> 32 word \<Rightarrow> byte list" where
  "writeU32 bw w =
     bw @ [ucast w, ucast (drop_bit 8 w), ucast (drop_bit 16 w), ucast (drop_bit 24 w)]"

fun readU32 :: "byte list \<Rightarrow> (32 word \<times> byte list) option" where
  "readU32 (b0 # b1 # b2 # b3 # br) =
     Some (ucast b0 OR push_bit 8 (ucast b1) OR push_bit 16 (ucast b2)
             OR push_bit 24 (ucast b3), br)"
| "readU32 _ = None"

text \<open>
  The packed word of \<open>toWriter\<close>. \<open>height |= code << 29\<close> works on the 32-bit integer
  values of its operands, and \<open>writeU32\<close> stores the low 32 bits of the result.
\<close>

definition pack_height :: "int \<Rightarrow> bool \<Rightarrow> 32 word" where
  "pack_height h cb =
     (let height = (if h = - 1 then 0x1fffffff else h);
          code = (if cb then 0 OR 1 else 0) :: 32 word
      in word_of_int height OR push_bit 29 code)"

definition CoinEntry_getSize :: "codec \<Rightarrow> coin_entry \<Rightarrow> nat" where
  "CoinEntry_getSize cdc e =
     (case raw e of
        Some r \<Rightarrow> length r
      | None \<Rightarrow> 0 + sizeVarint cdc (version e) + 4 + compress_size cdc (entry_output e))"

definition CoinEntry_toWriter :: "codec \<Rightarrow> coin_entry \<Rightarrow> byte list \<Rightarrow> byte list" where
  "CoinEntry_toWriter cdc e bw =
     (case raw e of
        Some r \<Rightarrow> bw @ r
      | None \<Rightarrow>
          writeU32 (bw @ writeVarint cdc (version e)) (pack_height (height e) (coinbase e))
            @ compress_output cdc (entry_output e))"

text \<open>\<open>toRaw\<close>: the bytes, and the entry with the bytes cached.\<close>

definition CoinEntry_toRaw :: "codec \<Rightarrow> coin_entry \<Rightarrow> byte list \<times> coin_entry" where
  "CoinEntry_toRaw cdc e =
     (case raw e of
        Some r \<Rightarrow> (r, e)
      | None \<Rightarrow> (let r = CoinEntry_toWriter cdc e [] in (r, e\<lparr>raw := Some r\<rparr>)))"

text \<open>
  The two fields unpacked by \<open>fromReader\<close>: \<open>code = height >>> 29\<close>,
  \<open>height &= 0x1fffffff\<close>, the sentinel, and \<open>(code & 1) !== 0\<close>.
\<close>

definition unpack_height :: "32 word \<Rightarrow> int" where
  "unpack_height w =
     (let height = w AND 0x1fffffff
      in if height = 0x1fffffff then - 1 else uint height)"

definition unpack_coinbase :: "32 word \<Rightarrow> bool" where
  "unpack_coinbase w = (let code = drop_bit 29 w in code AND 1 \<noteq> 0)"

definition CoinEntry_fromReader :: "codec \<Rightarrow> byte list \<Rightarrow> (coin_entry \<times> byte list) option" where
  "CoinEntry_fromReader cdc br =
     (case readVarint cdc br of
        None \<Rightarrow> None
      | Some (ver, br1) \<Rightarrow>
          (case readU32 br1 of
             None \<Rightarrow> None
           | Some (w, br2) \<Rightarrow>
               (case decompress_output cdc br2 of
                  None \<Rightarrow> None
                | Some (out, br3) \<Rightarrow>
                    Some (CoinEntry_new\<lparr>version := ver, coinbase := unpack_coinbase w,
                            height := unpack_height w, entry_output := out\<rparr>, br3))))"

text \<open>\<open>fromRaw\<close> reads from the start of the data and keeps the data as the cache.\<close>

definition CoinEntry_fromRaw :: "codec \<Rightarrow> byte list \<Rightarrow> coin_entry option" where
  "CoinEntry_fromRaw cdc data =
     (case CoinEntry_fromReader cdc data of
        None \<Rightarrow> None
      | Some (e, br) \<Rightarrow> Some (e\<lparr>raw := Some data\<rparr>))"

subsection \<open>The fast form of a view\<close>

primrec getFastSize_loop :: "codec \<Rightarrow> coin_view \<Rightarrow> input list \<Rightarrow> nat \<Rightarrow> nat" where
  "getFastSize_loop cdc v [] sz = sz"
| "getFastSize_loop cdc v (inp # rest) sz =
     (case CoinView_getEntry v inp of
        None \<Rightarrow> getFastSize_loop cdc v rest sz
      | Some e \<Rightarrow> getFastSize_loop cdc v rest (sz + CoinEntry_getSize cdc e))"

definition CoinView_getFastSize :: "codec \<Rightarrow> coin_view \<Rightarrow> tx \<Rightarrow> nat" where
  "CoinView_getFastSize cdc v t =
     getFastSize_loop cdc v (inputs t) (0 + length (inputs t))"

primrec toFast_loop :: "codec \<Rightarrow> coin_view \<Rightarrow> input list \<Rightarrow> byte list \<Rightarrow> byte list" where
  "toFast_loop cdc v [] bw = bw"
| "toFast_loop cdc v (inp # rest) bw =
     (case CoinView_getEntry v inp of
        None \<Rightarrow> toFast_loop cdc v rest (writeU8 bw 0)
      | Some e \<Rightarrow> toFast_loop cdc v rest (CoinEntry_toWriter cdc e (writeU8 bw 1)))"

definition CoinView_toFast :: "codec \<Rightarrow> coin_view \<Rightarrow> byte list \<Rightarrow> tx \<Rightarrow> byte list" where
  "CoinView_toFast cdc v bw t = toFast_loop cdc v (inputs t) bw"

text \<open>
  The loop of \<open>fromFast\<close>: the view being filled and the reader. A failed read is a
  \<open>DecodeError\<close>.
\<close>

primrec fromFast_loop ::
    "codec \<Rightarrow> coin_view \<Rightarrow> byte list \<Rightarrow> input list \<Rightarrow> error + coin_view \<times> byte list" where
  "fromFast_loop cdc v br [] = Inr (v, br)"
| "fromFast_loop cdc v br (inp # rest) =
     (case readU8 br of
        None \<Rightarrow> Inl DecodeError
      | Some (flag, br1) \<Rightarrow>
          if flag = 0 then fromFast_loop cdc v br1 rest
          else (case CoinEntry_fromReader cdc br1 of
                  None \<Rightarrow> Inl DecodeError
                | Some (e, br2) \<Rightarrow>
                    (case CoinView_addEntry v (Outpoint_arg (prevout inp)) (Entry_arg e) of
                       Inl err \<Rightarrow> Inl err
                     | Inr (v', r) \<Rightarrow> fromFast_loop cdc v' br2 rest)))"

definition CoinView_fromFast ::
    "codec \<Rightarrow> byte list \<Rightarrow> tx \<Rightarrow> error + coin_view \<times> byte list" where
  "CoinView_fromFast cdc br t = fromFast_loop cdc CoinView_new br (inputs t)"

section \<open>Predicates used in the statements\<close>

text \<open>The bucket a lookup by hash works on: the cached one, or an empty one.\<close>

definition bucket :: "coin_view \<Rightarrow> hash \<Rightarrow> coins" where
  "bucket v h = (case cv_map v h of None \<Rightarrow> Coins_new | Some c \<Rightarrow> c)"

text \<open>An entry as \<open>Coins.spend\<close> leaves it.\<close>

definition mark_spent :: "coin_entry \<Rightarrow> coin_entry" where
  "mark_spent e = e\<lparr>spent := True\<rparr>"

text \<open>
  The coin that read-through is to find for an input, in the words of the spec: the entry
  the view has cached for the input's previous output, and otherwise the coin that the
  store supplies for that outpoint; a store coin with an unspendable script is dropped
  and counts as not found.
\<close>

definition resolve :: "coin_view \<Rightarrow> store \<Rightarrow> input \<Rightarrow> coin_entry option" where
  "resolve v db inp =
     (case CoinView_getEntry v inp of
        Some e \<Rightarrow> Some e
      | None \<Rightarrow>
          (case db (prevout inp) of
             None \<Rightarrow> None
           | Some e \<Rightarrow> if isUnspendable (out_script (entry_output e)) then None else Some e))"

text \<open>
  Modelled from the spec: the contract of the varint and of the output codec, for the
  version and the output of one entry. Decoding what was encoded gives the value back and
  leaves the reader after it, and the size functions give the encoded lengths.
\<close>

definition codec_reads :: "codec \<Rightarrow> coin_entry \<Rightarrow> bool" where
  "codec_reads cdc e \<longleftrightarrow>
     (\<forall>br. readVarint cdc (writeVarint cdc (version e) @ br) = Some (version e, br))
     \<and> (\<forall>br. decompress_output cdc (compress_output cdc (entry_output e) @ br)
                = Some (entry_output e, br))"

definition codec_sizes :: "codec \<Rightarrow> coin_entry \<Rightarrow> bool" where
  "codec_sizes cdc e \<longleftrightarrow>
     sizeVarint cdc (version e) = length (writeVarint cdc (version e))
     \<and> compress_size cdc (entry_output e) = length (compress_output cdc (entry_output e))"

text \<open>
  The cache of an entry is consistent: empty, or the bytes that encoding the fields gives
  (what \<open>toRaw\<close> stores).
\<close>

definition raw_consistent :: "codec \<Rightarrow> coin_entry \<Rightarrow> bool" where
  "raw_consistent cdc e \<longleftrightarrow>
     raw e = None \<or> raw e = Some (CoinEntry_toWriter cdc (e\<lparr>raw := None\<rparr>) [])"

definition height_in_range :: "coin_entry \<Rightarrow> bool" where
  "height_in_range e \<longleftrightarrow> - 1 \<le> height e \<and> height e \<le> 2 ^ 29 - 2"

text \<open>
  What a freshly decoded entry keeps of the original: the four serialized fields. The
  \<open>spent\<close> flag and the cache are in memory only and start afresh.
\<close>

definition decoded :: "coin_entry \<Rightarrow> coin_entry" where
  "decoded e = e\<lparr>spent := False, raw := None\<rparr>"

text \<open>
  An entry whose record can be written and read back: an encodable height, a consistent
  cache, and within the codec's contract.
\<close>

definition fast_entry_ok :: "codec \<Rightarrow> coin_entry \<Rightarrow> bool" where
  "fast_entry_ok cdc e \<longleftrightarrow>
     height_in_range e \<and> raw_consistent cdc e \<and> codec_reads cdc e \<and> codec_sizes cdc e"

text \<open>
  What \<open>fromFast\<close> keeps of a cached entry: the entry as decoded, unless its script is
  unspendable, in which case \<open>addEntry\<close> drops it.
\<close>

definition carried :: "coin_entry \<Rightarrow> coin_entry option" where
  "carried e =
     (if isUnspendable (out_script (entry_output e)) then None else Some (decoded e))"

text \<open>The bytes of one input in the fast form.\<close>

definition fast_record :: "codec \<Rightarrow> coin_view \<Rightarrow> input \<Rightarrow> byte list" where
  "fast_record cdc v inp =
     (case CoinView_getEntry v inp of
        None \<Rightarrow> [0]
      | Some e \<Rightarrow> 1 # CoinEntry_toWriter cdc e [])"

section \<open>Example data\<close>

text \<open>
  A spendable output, an unspendable one (an \<open>OP_RETURN\<close> script), and a bucket of three
  entries whose middle one is spent.
\<close>

definition ex_pay :: txoutput where
  "ex_pay = \<lparr>out_value = 5, out_script = Script [0x51] False\<rparr>"

definition ex_burn :: txoutput where
  "ex_burn = \<lparr>out_value = 0, out_script = Script [0x6a] True\<rparr>"

definition ex_entry :: coin_entry where
  "ex_entry = CoinEntry_fromOutput ex_pay"

definition ex_coins :: coins where
  "ex_coins = \<lparr>coins_hash = ''aa'',
      coins_outputs = [Some ex_entry, Some (ex_entry\<lparr>spent := True\<rparr>), Some ex_entry]\<rparr>"

text \<open>
  A transaction with one spendable output, and one whose first output is unspendable;
  the entry and the view that \<open>addTX\<close> at height 1 builds from the first; the same view
  after its only output was spent.
\<close>

definition ex_tx_one :: tx where
  "ex_tx_one = \<lparr>tx_hash = ''aa'', tx_version = 1, tx_isCoinbase = False,
      inputs = [], outputs = [ex_pay]\<rparr>"

definition ex_tx_hole :: tx where
  "ex_tx_hole = \<lparr>tx_hash = ''bb'', tx_version = 1, tx_isCoinbase = False,
      inputs = [], outputs = [ex_burn, ex_pay]\<rparr>"

definition ex_entry1 :: coin_entry where
  "ex_entry1 = \<lparr>version = 1, height = 1, coinbase = False, entry_output = ex_pay,
      spent = False, raw = None\<rparr>"

definition ex_holed :: coins where
  "ex_holed = \<lparr>coins_hash = ''bb'', coins_outputs = [None, Some ex_entry1]\<rparr>"

definition ex_view :: coin_view where
  "ex_view =
     \<lparr>cv_map = [''aa'' \<mapsto> \<lparr>coins_hash = ''aa'', coins_outputs = [Some ex_entry1]\<rparr>],
      cv_undo = []\<rparr>"

definition ex_view_spent :: coin_view where
  "ex_view_spent =
     \<lparr>cv_map = [''aa'' \<mapsto> \<lparr>coins_hash = ''aa'',
                  coins_outputs = [Some (ex_entry1\<lparr>spent := True\<rparr>)]\<rparr>],
      cv_undo = [ex_entry1\<lparr>spent := True\<rparr>]\<rparr>"

definition ex_outpoint :: outpoint where
  "ex_outpoint = \<lparr>hash = ''aa'', index = 0\<rparr>"

definition ex_input :: input where
  "ex_input = \<lparr>prevout = ex_outpoint\<rparr>"

text \<open>An input whose coin neither the view nor the store has, and an empty store.\<close>

definition ex_input_missing :: input where
  "ex_input_missing = \<lparr>prevout = \<lparr>hash = ''cc'', index = 0\<rparr>\<rparr>"

definition ex_store :: store where
  "ex_store = (\<lambda>p. None)"

definition ex_tx_spend :: tx where
  "ex_tx_spend = \<lparr>tx_hash = ''dd'', tx_version = 1, tx_isCoinbase = False,
      inputs = [ex_input, ex_input_missing], outputs = []\<rparr>"

definition ex_tx_spend_one :: tx where
  "ex_tx_spend_one = \<lparr>tx_hash = ''ee'', tx_version = 1, tx_isCoinbase = False,
      inputs = [ex_input], outputs = []\<rparr>"

text \<open>A store that has a coin for the input the view lacks.\<close>

definition ex_store_load :: store where
  "ex_store_load = (\<lambda>p. if hash p = ''cc'' \<and> index p = 0 then Some ex_entry1 else None)"

text \<open>
  The view that \<open>fromFast\<close> builds for the one input of \<open>ex_tx_spend_one\<close>: the bucket is
  created by \<open>addEntry\<close>, with the null hash, and holds the entry unspent.
\<close>

definition ex_view_fast :: coin_view where
  "ex_view_fast =
     \<lparr>cv_map = [''aa'' \<mapsto> \<lparr>coins_hash = NULL_HASH, coins_outputs = [Some ex_entry1]\<rparr>],
      cv_undo = []\<rparr>"

text \<open>
  A small codec that meets the contract, to instantiate the parameters: a number is
  that many bytes 1 closed by a byte 0; an output is its value, the flag of its script,
  and the script bytes behind their count.
\<close>

definition unary_write :: "nat \<Rightarrow> byte list" where
  "unary_write n = replicate n 1 @ [0]"

fun unary_read :: "byte list \<Rightarrow> (nat \<times> byte list) option" where
  "unary_read [] = None"
| "unary_read (b # br) =
     (if b = 0 then Some (0, br)
      else (case unary_read br of None \<Rightarrow> None | Some (n, br') \<Rightarrow> Some (Suc n, br')))"

definition ex_compress :: "txoutput \<Rightarrow> byte list" where
  "ex_compress out =
     unary_write (out_value out)
       @ [if isUnspendable (out_script out) then 1 else 0]
       @ unary_write (length (code (out_script out))) @ code (out_script out)"

definition ex_decompress :: "byte list \<Rightarrow> (txoutput \<times> byte list) option" where
  "ex_decompress br =
     (case unary_read br of
        None \<Rightarrow> None
      | Some (val, br1) \<Rightarrow>
          (case readU8 br1 of
             None \<Rightarrow> None
           | Some (flag, br2) \<Rightarrow>
               (case unary_read br2 of
                  None \<Rightarrow> None
                | Some (n, br3) \<Rightarrow>
                    if length br3 < n then None
                    else Some (\<lparr>out_value = val,
                                 out_script = Script (take n br3) (flag \<noteq> 0)\<rparr>,
                               drop n br3))))"

definition ex_codec :: codec where
  "ex_codec =
     \<lparr>writeVarint = unary_write, readVarint = unary_read,
      sizeVarint = (\<lambda>n. Suc n),
      compress_output = ex_compress, decompress_output = ex_decompress,
      compress_size = (\<lambda>out. length (ex_compress out))\<rparr>"

section \<open>Coins.length and spending\<close>

lemma length_loop_le: "length_loop c n \<le> n"
  by (induction n) auto

lemma length_loop_none_above: "length_loop c n \<le> i \<Longrightarrow> i < n \<Longrightarrow> \<not> Coins_isUnspent c i"
  by (induction n) (auto split: if_splits simp: less_Suc_eq)

lemma length_loop_last: "0 < length_loop c n \<Longrightarrow> Coins_isUnspent c (length_loop c n - 1)"
  by (induction n) (auto split: if_splits)

lemma isUnspent_lt: "Coins_isUnspent c i \<Longrightarrow> i < length (coins_outputs c)"
  by (auto simp: Coins_isUnspent_def split: if_splits)

lemma length_loop_cong:
  "(\<And>j. j < n \<Longrightarrow> Coins_isUnspent c' j = Coins_isUnspent c j) \<Longrightarrow> length_loop c' n = length_loop c n"
  by (induction n) auto

lemma length_loop_skip:
  "m \<le> n \<Longrightarrow> (\<And>j. m \<le> j \<Longrightarrow> j < n \<Longrightarrow> \<not> Coins_isUnspent c j) \<Longrightarrow> length_loop c n = length_loop c m"
proof (induction n)
  case 0
  then show ?case by simp
next
  case (Suc n)
  show ?case
  proof (cases "m = Suc n")
    case True
    then show ?thesis by simp
  next
    case False
    with Suc.prems(1) have mn: "m \<le> n" by simp
    have "\<not> Coins_isUnspent c n" using Suc.prems(2) [of n] mn by simp
    moreover have "length_loop c n = length_loop c m"
      using Suc.IH [OF mn] Suc.prems(2) by simp
    ultimately show ?thesis by simp
  qed
qed

lemma length_loop_unspent: "Coins_isUnspent c n \<Longrightarrow> length_loop c (Suc n) = Suc n"
  by simp

lemma isUnspent_spend:
  "Coins_isUnspent c i \<Longrightarrow> Coins_isUnspent (snd (Coins_spend c i)) j = (Coins_isUnspent c j \<and> j \<noteq> i)"
  by (auto simp: Coins_spend_def Coins_get_def Coins_isUnspent_def Let_def nth_list_update split: option.splits if_splits)

lemma length_spend: "length (coins_outputs (snd (Coins_spend c i))) = length (coins_outputs c)"
  by (auto simp: Coins_spend_def Let_def split: option.splits)

lemma Coins_length_unique:
  assumes "m \<le> length (coins_outputs c)"
    and "\<And>j. m \<le> j \<Longrightarrow> \<not> Coins_isUnspent c j"
    and "0 < m \<Longrightarrow> Coins_isUnspent c (m - 1)"
  shows "Coins_length c = m"
proof -
  have "length_loop c (length (coins_outputs c)) = length_loop c m"
    using assms(1,2) by (intro length_loop_skip) auto
  also have "\<dots> = m"
  proof (cases m)
    case 0 then show ?thesis by simp
  next
    case (Suc k)
    with assms(3) show ?thesis by simp
  qed
  finally show ?thesis by (simp add: Coins_length_def)
qed

text \<open>
  C8, as the code has it. \<open>length()\<close> is one past the highest index holding an unspent
  entry, and 0 if there is none. Spending an unspent entry below the final unspent index
  leaves \<open>length()\<close> unchanged. Spending the entry at the final unspent index makes
  \<open>length()\<close> smaller by at least one: it falls to one past the highest unspent index
  that remains, which is a decrease of exactly one only when the final index is 0 or the
  slot just below it holds an unspent entry.
\<close>

theorem Coins_length_spend:
  "Coins_length c \<le> length (coins_outputs c)
   \<and> (\<forall>j. Coins_length c \<le> j \<longrightarrow> \<not> Coins_isUnspent c j)
   \<and> (0 < Coins_length c \<longrightarrow> Coins_isUnspent c (Coins_length c - 1))
   \<and> (Coins_isUnspent c i \<and> Suc i < Coins_length c \<longrightarrow>
        Coins_length (snd (Coins_spend c i)) = Coins_length c)
   \<and> (Coins_isUnspent c i \<and> Suc i = Coins_length c \<longrightarrow>
        Coins_length (snd (Coins_spend c i)) < Coins_length c
        \<and> (Coins_length (snd (Coins_spend c i)) = Coins_length c - 1
             \<longleftrightarrow> i = 0 \<or> Coins_isUnspent c (i - 1)))"
proof -
  let ?N = "length (coins_outputs c)"
  let ?L = "Coins_length c"
  let ?c' = "snd (Coins_spend c i)"
  have le: "?L \<le> ?N"
    by (simp add: Coins_length_def length_loop_le)
  have above: "\<not> Coins_isUnspent c j" if "?L \<le> j" for j
  proof (cases "j < ?N")
    case True
    with that show ?thesis
      by (auto simp: Coins_length_def dest: length_loop_none_above)
  next
    case False
    then show ?thesis by (auto dest: isUnspent_lt)
  qed
  have top: "Coins_isUnspent c (?L - 1)" if "0 < ?L"
    using that length_loop_last [of c ?N] by (simp add: Coins_length_def)
  have nonfinal: "Coins_length ?c' = ?L" if u: "Coins_isUnspent c i" and lt: "Suc i < ?L"
  proof (rule Coins_length_unique)
    show "?L \<le> length (coins_outputs ?c')" using le by (simp add: length_spend)
    show "\<not> Coins_isUnspent ?c' j" if "?L \<le> j" for j
      using that above u by (simp add: isUnspent_spend)
    show "Coins_isUnspent ?c' (?L - 1)" if "0 < ?L"
      using that top lt u by (simp add: isUnspent_spend)
  qed
  have final: "Coins_length ?c' = length_loop c i" if u: "Coins_isUnspent c i" and eq: "Suc i = ?L"
  proof -
    have "Coins_length ?c' = length_loop ?c' ?N"
      by (simp add: Coins_length_def length_spend)
    also have "\<dots> = length_loop ?c' i"
    proof (rule length_loop_skip)
      show "i \<le> ?N" using le eq by simp
      show "\<not> Coins_isUnspent ?c' j" if "i \<le> j" "j < ?N" for j
        using that above [of j] eq u by (cases "j = i") (simp_all add: isUnspent_spend)
    qed
    also have "\<dots> = length_loop c i"
      using u by (intro length_loop_cong) (simp add: isUnspent_spend)
    finally show ?thesis .
  qed
  have final_lt: "Coins_length ?c' < ?L" if "Coins_isUnspent c i" "Suc i = ?L"
    using final [OF that] length_loop_le [of c i] that(2) by simp
  have final_one: "(Coins_length ?c' = ?L - 1) = (i = 0 \<or> Coins_isUnspent c (i - 1))"
    if u: "Coins_isUnspent c i" and eq: "Suc i = ?L"
  proof (cases i)
    case 0
    with final [OF u eq] eq show ?thesis by simp
  next
    case (Suc k)
    have "length_loop c i = i \<longleftrightarrow> Coins_isUnspent c k"
      using length_loop_le [of c k] Suc by auto
    moreover have "?L - 1 = i" using eq by simp
    ultimately show ?thesis using final [OF u eq] Suc by simp
  qed
  show ?thesis
    using le above top nonfinal final_lt final_one by blast
qed


theorem Coins_length_spend_witness:
  "Coins_length ex_coins \<le> 3 \<and> \<not> Coins_isUnspent ex_coins 3 \<and> Coins_isUnspent ex_coins 2
   \<and> Coins_length (snd (Coins_spend ex_coins 0)) = 3
   \<and> Coins_length (snd (Coins_spend ex_coins 2)) < 3
   \<and> Coins_length (snd (Coins_spend ex_coins 2)) \<noteq> 2"
proof -
  have l: "Coins_length ex_coins = 3" by code_simp
  have u0: "Coins_isUnspent ex_coins 0" by code_simp
  have u1: "\<not> Coins_isUnspent ex_coins (2 - 1)" by code_simp
  have u2: "Coins_isUnspent ex_coins 2" by code_simp
  have a: "Coins_length (snd (Coins_spend ex_coins 0)) = 3"
    using Coins_length_spend [of ex_coins 0] l u0 by simp
  have b: "Coins_length (snd (Coins_spend ex_coins 2)) < 3
      \<and> Coins_length (snd (Coins_spend ex_coins 2)) \<noteq> 2"
    using Coins_length_spend [of ex_coins 2] l u1 u2 by simp
  have c: "\<not> Coins_isUnspent ex_coins 3"
    using Coins_length_spend [of ex_coins 0] l by simp
  show ?thesis using a b c l u2 by simp
qed

text \<open>
  C8 as stated fails: in a bucket whose slots 0 and 2 are unspent and whose slot 1 is
  spent, index 2 is the final unspent index, and spending it takes \<open>length()\<close> from 3 to
  1, not to 2.
\<close>

theorem Coins_length_spend_counterexample:
  "Coins_isUnspent ex_coins 2 \<and> Suc 2 = Coins_length ex_coins
   \<and> Coins_length (snd (Coins_spend ex_coins 2)) \<noteq> Coins_length ex_coins - 1"
  by code_simp

section \<open>Read accessors of Coins\<close>

lemma fromTX_hole: "Coins_fromTX ex_tx_hole 1 = Inr ex_holed"
  by (simp add: ex_tx_hole_def ex_holed_def ex_entry1_def ex_pay_def ex_burn_def
      Coins_fromTX_def numeral_2_eq_2 CoinEntry_fromTX_def CoinEntry_new_def Coins_cleanup_def)

lemma Coins_accessors_past_end:
  "length (coins_outputs c) \<le> i \<Longrightarrow>
     Coins_get c i = None \<and> Coins_getOutput c i = Inr None
     \<and> Coins_getCoin c (Number i) = Inr None"
  by (simp add: Coins_get_def Coins_getOutput_def)

text \<open>
  C7 on the code. The bucket built from a transaction whose first output is unspendable
  has a hole at index 0 below an entry at index 1. \<open>get(0)\<close> returns nothing there, but
  \<open>getOutput(0)\<close> and \<open>getCoin(0)\<close> call a method on the hole and throw a TypeError,
  where C7 has them return nothing without an exception.
\<close>

theorem Coins_accessors_hole:
  "Coins_fromTX ex_tx_hole 1 = Inr ex_holed
   \<and> Coins_get ex_holed 0 = None
   \<and> Coins_getOutput ex_holed 0 = Inl TypeError
   \<and> Coins_getCoin ex_holed (Number 0) = Inl TypeError"
  by (simp add: fromTX_hole) (simp add: ex_holed_def Coins_get_def Coins_getOutput_def)

section \<open>removeTX\<close>

text \<open>
  C9 on the code. For the same transaction, \<open>removeTX\<close> builds the bucket with its hole
  and then sets \<open>spent\<close> on every slot, the hole included: it throws a TypeError and
  installs nothing, where C9 has it install the bucket with every entry marked spent.
\<close>

theorem removeTX_hole: "CoinView_removeTX CoinView_new ex_tx_hole 1 = Inl TypeError"
  by (simp add: CoinView_removeTX_def fromTX_hole) (simp add: ex_holed_def)

section \<open>Projections of the view by input\<close>

lemma addTX_one: "CoinView_addTX CoinView_new ex_tx_one 1 = Inr ex_view"
  by (simp add: ex_tx_one_def ex_view_def ex_entry1_def ex_pay_def CoinView_addTX_def
      Coins_fromTX_def CoinEntry_fromTX_def CoinEntry_new_def Coins_cleanup_def
      CoinView_add_def CoinView_new_def)

text \<open>
  C6 on the code. In the view built by \<open>addTX\<close> from a transaction with one spendable
  output, the input that refers to that output has a cached entry, and \<open>getEntry\<close>
  returns it; \<open>getCoin\<close> for the same input throws a TypeError, where C6 has it return
  the materialized coin.
\<close>

theorem CoinView_getCoin_throws:
  "CoinView_addTX CoinView_new ex_tx_one 1 = Inr ex_view
   \<and> CoinView_getEntry ex_view ex_input = Some ex_entry1
   \<and> CoinView_getCoin ex_view ex_input = Inl TypeError"
  by (simp add: addTX_one)
     (simp add: ex_view_def ex_input_def ex_outpoint_def CoinView_getEntry_def
        CoinView_getCoin_def CoinView_get_def Coins_get_def)

lemma CoinView_getCoin_cached:
  "CoinView_get v (hash (prevout inp)) = Some c \<Longrightarrow> CoinView_getCoin v inp = Inl TypeError"
  by (simp add: CoinView_getCoin_def)

section \<open>spendFrom\<close>

text \<open>
  C3. When the slot at the index is missing (past the end, or a hole) or its entry is
  already spent, \<open>spendFrom\<close> returns false and leaves the bucket and the view, undo stack
  included, as they were. When the slot holds an unspent entry, it returns true, the
  bucket differs only in that entry, now marked spent, and the undo stack has grown by
  exactly that entry.
\<close>

theorem spendFrom_spec:
  "(Coins_get c i = None \<or> (\<exists>e. Coins_get c i = Some e \<and> spent e)
      \<longrightarrow> CoinView_spendFrom v c i = (False, c, v))
   \<and> (\<forall>e. Coins_get c i = Some e \<and> \<not> spent e
      \<longrightarrow> CoinView_spendFrom v c i =
            (True,
             c\<lparr>coins_outputs := (coins_outputs c)[i := Some (e\<lparr>spent := True\<rparr>)]\<rparr>,
             v\<lparr>cv_undo := cv_undo v @ [e\<lparr>spent := True\<rparr>]\<rparr>))"
  by (auto simp: CoinView_spendFrom_def Coins_spend_def UndoCoins_push_def Let_def)

theorem spendFrom_spec_witness:
  "CoinView_spendFrom CoinView_new ex_holed 0 = (False, ex_holed, CoinView_new)
   \<and> CoinView_spendFrom CoinView_new ex_holed 1 =
        (True,
         ex_holed\<lparr>coins_outputs := [None, Some (ex_entry1\<lparr>spent := True\<rparr>)]\<rparr>,
         CoinView_new\<lparr>cv_undo := [ex_entry1\<lparr>spent := True\<rparr>]\<rparr>)"
proof -
  have a: "Coins_get ex_holed 0 = None"
    by (simp add: ex_holed_def Coins_get_def)
  have b: "Coins_get ex_holed 1 = Some ex_entry1 \<and> \<not> spent ex_entry1"
    by (simp add: ex_holed_def Coins_get_def ex_entry1_def)
  have c: "(coins_outputs ex_holed)[1 := Some (ex_entry1\<lparr>spent := True\<rparr>)]
             = [None, Some (ex_entry1\<lparr>spent := True\<rparr>)]"
    by (simp add: ex_holed_def)
  have d: "cv_undo CoinView_new = []" by (simp add: CoinView_new_def)
  show ?thesis
    using spendFrom_spec [of ex_holed 0 CoinView_new] spendFrom_spec [of ex_holed 1 CoinView_new]
      a b c d by simp
qed

section \<open>UndoCoins.apply\<close>

lemma spendOutput_one: "CoinView_spendOutput ex_view ex_outpoint = (True, ex_view_spent)"
  by (simp add: ex_view_def ex_view_spent_def ex_outpoint_def ex_entry1_def
      CoinView_spendOutput_def CoinView_get_def CoinView_spendFrom_def Coins_spend_def
      Coins_get_def Let_def UndoCoins_push_def CoinView_add_def)

lemma UndoCoins_apply_nonempty: "items \<noteq> [] \<Longrightarrow> UndoCoins_apply items v p = Inl TypeError"
  by (simp add: UndoCoins_apply_def CoinView_addEntry_def split: prod.splits)

lemma UndoCoins_apply_empty: "UndoCoins_apply [] v p = Inl AssertionError"
  by (simp add: UndoCoins_apply_def)

text \<open>
  C1 on the code. One spend through the view pushes one entry onto the shared stack.
  \<open>apply\<close> with the outpoint of that spend then throws a TypeError inside \<open>addEntry\<close>,
  which receives the hash and the index in place of the outpoint and the entry; nothing
  is reinserted and the view is not restored, where C1 has the view end as it was before
  the spend.
\<close>

theorem UndoCoins_apply_throws:
  "CoinView_addTX CoinView_new ex_tx_one 1 = Inr ex_view
   \<and> CoinView_spendOutput ex_view ex_outpoint = (True, ex_view_spent)
   \<and> UndoCoins_apply (cv_undo ex_view_spent) ex_view_spent ex_outpoint = Inl TypeError"
  by (simp add: addTX_one spendOutput_one)
     (simp add: UndoCoins_apply_def CoinView_addEntry_def ex_view_spent_def split: prod.splits)

section \<open>addEntry on an outpoint and an entry\<close>

lemma Coins_has_get: "Coins_has c i \<longleftrightarrow> Coins_get c i \<noteq> None"
  by (simp add: Coins_has_def Coins_get_def)

lemma Coins_get_new: "Coins_get Coins_new i = None"
  by (simp add: Coins_get_def Coins_new_def)

lemma Coins_add_free:
  assumes "Coins_get c i = None"
  shows "\<exists>c'. Coins_add c i e = Inr c' \<and> (\<forall>j. Coins_get c' j = (if j = i then Some e else Coins_get c j))"
proof -
  let ?outs = "coins_outputs c"
  let ?padded = "?outs @ replicate (Suc i - length ?outs) None"
  have free: "?padded ! i = None"
    using assms by (auto simp: Coins_get_def nth_append split: if_splits)
  have len: "i < length ?padded" by auto
  have get: "Coins_get (c\<lparr>coins_outputs := ?padded[i := Some e]\<rparr>) j
               = (if j = i then Some e else Coins_get c j)" for j
    using len by (auto simp: Coins_get_def nth_list_update nth_append)
  show ?thesis
    using free get by (simp add: Coins_add_def Let_def)
qed

lemma outpoint_eq: "(p :: outpoint) = q \<longleftrightarrow> hash p = hash q \<and> index p = index q"
  by (cases p, cases q) simp

lemma getEntry_bucket: "CoinView_getEntry v x = Coins_get (bucket v (hash (prevout x))) (index (prevout x))"
  by (simp add: CoinView_getEntry_def CoinView_get_def bucket_def Coins_get_new split: option.splits)

lemma bucket_add: "bucket (CoinView_add v h c) k = (if k = h then c else bucket v k)"
  by (simp add: bucket_def CoinView_add_def)

lemma addEntry_unspendable:
  "isUnspendable (out_script (entry_output e)) \<Longrightarrow>
   CoinView_addEntry v (Outpoint_arg p) (Entry_arg e) =
     Inr (case cv_map v (hash p) of None \<Rightarrow> CoinView_add v (hash p) Coins_new | Some c \<Rightarrow> v, None)"
  by (simp add: CoinView_addEntry_def map_key_def CoinView_get_def split: option.splits)

lemma addEntry_typed:
  assumes "\<not> isUnspendable (out_script (entry_output e))"
  shows "\<exists>v' c'. CoinView_addEntry v (Outpoint_arg p) (Entry_arg e) = Inr (v', Some c')
           \<and> cv_map v' (hash p) = Some c'
           \<and> cv_undo v' = cv_undo v
           \<and> (\<forall>k. k \<noteq> hash p \<longrightarrow> cv_map v' k = cv_map v k)
           \<and> (\<forall>j. Coins_get c' j =
                 (if j = index p \<and> Coins_get (bucket v (hash p)) j = None then Some e
                  else Coins_get (bucket v (hash p)) j))"
proof (cases "Coins_get (bucket v (hash p)) (index p)")
  case None
  obtain c' where c': "Coins_add (bucket v (hash p)) (index p) e = Inr c'"
     "\<And>j. Coins_get c' j = (if j = index p then Some e else Coins_get (bucket v (hash p)) j)"
    using Coins_add_free [OF None] by blast
  show ?thesis
    using None c' assms
    by (cases "cv_map v (hash p)")
       (auto simp: CoinView_addEntry_def map_key_def CoinView_get_def Coins_has_get bucket_def
          CoinView_add_def)
next
  case (Some a)
  then show ?thesis
    using assms
    by (cases "cv_map v (hash p)")
       (auto simp: CoinView_addEntry_def map_key_def CoinView_get_def Coins_has_get bucket_def
          CoinView_add_def Coins_get_new)
qed

lemma addEntry_total:
  "\<exists>v' r. CoinView_addEntry v (Outpoint_arg p) (Entry_arg e) = Inr (v', r)"
  using addEntry_typed [of e v p] addEntry_unspendable [of e v p]
  by (cases "isUnspendable (out_script (entry_output e))") auto

lemma getEntry_prevout:
  "prevout x = prevout y \<Longrightarrow> CoinView_getEntry v x = CoinView_getEntry v y"
  by (simp add: CoinView_getEntry_def split: option.splits)

lemma getEntry_addEntry:
  assumes "\<not> isUnspendable (out_script (entry_output e))"
  shows "\<exists>v' r. CoinView_addEntry v (Outpoint_arg p) (Entry_arg e) = Inr (v', r)
           \<and> (\<forall>x. CoinView_getEntry v' x =
                 (if prevout x = p \<and> CoinView_getEntry v x = None then Some e
                  else CoinView_getEntry v x))"
proof -
  obtain v' c' where a: "CoinView_addEntry v (Outpoint_arg p) (Entry_arg e) = Inr (v', Some c')"
    and m: "cv_map v' (hash p) = Some c'"
    and o: "\<And>k. k \<noteq> hash p \<Longrightarrow> cv_map v' k = cv_map v k"
    and g: "\<And>j. Coins_get c' j =
                 (if j = index p \<and> Coins_get (bucket v (hash p)) j = None then Some e
                  else Coins_get (bucket v (hash p)) j)"
    using addEntry_typed [OF assms, of v p] by blast
  have "CoinView_getEntry v' x =
          (if prevout x = p \<and> CoinView_getEntry v x = None then Some e
           else CoinView_getEntry v x)" for x
  proof (cases "hash (prevout x) = hash p")
    case True
    then have "bucket v' (hash (prevout x)) = c'" using m by (simp add: bucket_def)
    with True g show ?thesis by (auto simp: getEntry_bucket outpoint_eq)
  next
    case False
    then have "bucket v' (hash (prevout x)) = bucket v (hash (prevout x))"
      using o by (simp add: bucket_def)
    with False show ?thesis by (auto simp: getEntry_bucket outpoint_eq)
  qed
  with a show ?thesis by blast
qed

text \<open>
  C10. With no bucket cached for the hash of the outpoint, \<open>addEntry\<close>, \<open>addOutput\<close> and
  \<open>addCoin\<close> with an unspendable script install an empty bucket under that hash and store
  no entry; \<open>addEntry\<close> and \<open>addCoin\<close> return nothing (\<open>addOutput\<close> never returns a
  value). So does \<open>readCoin\<close> when the store supplies such a coin for an input: it
  returns nothing and leaves the empty bucket in the map, so that \<open>has\<close> of the hash is
  true afterwards.
\<close>

theorem unspendable_installs_bucket:
  assumes "\<not> CoinView_has v (hash (prevout inp))"
  shows "(isUnspendable (out_script (entry_output e)) \<longrightarrow>
            CoinView_addEntry v (Outpoint_arg (prevout inp)) (Entry_arg e)
              = Inr (CoinView_add v (hash (prevout inp)) Coins_new, None)
            \<and> (db (prevout inp) = Some e \<longrightarrow>
                 CoinView_readCoin v db inp
                   = Inr (CoinView_add v (hash (prevout inp)) Coins_new, None)))
       \<and> (isUnspendable (out_script out) \<longrightarrow>
            CoinView_addOutput v (prevout inp) out
              = Inr (CoinView_add v (hash (prevout inp)) Coins_new))
       \<and> (isUnspendable (coin_script cn) \<and> coin_hash cn = hash (prevout inp) \<longrightarrow>
            CoinView_addCoin v cn = Inr (CoinView_add v (hash (prevout inp)) Coins_new, None))
       \<and> CoinView_has (CoinView_add v (hash (prevout inp)) Coins_new) (hash (prevout inp))
       \<and> CoinView_get (CoinView_add v (hash (prevout inp)) Coins_new) (hash (prevout inp))
            = Some Coins_new
       \<and> coins_outputs Coins_new = []"
  using assms
  by (auto simp: CoinView_has_def CoinView_addEntry_def map_key_def CoinView_get_def
      CoinView_readCoin_def CoinView_hasEntry_def CoinView_addOutput_def CoinView_addCoin_def
      CoinView_add_def Coins_new_def)

theorem unspendable_installs_bucket_witness:
  "\<not> CoinView_has CoinView_new ''aa''
   \<and> CoinView_addEntry CoinView_new (Outpoint_arg ex_outpoint)
         (Entry_arg (CoinEntry_fromOutput ex_burn))
       = Inr (CoinView_add CoinView_new ''aa'' Coins_new, None)
   \<and> CoinView_readCoin CoinView_new (\<lambda>p. Some (CoinEntry_fromOutput ex_burn)) ex_input
       = Inr (CoinView_add CoinView_new ''aa'' Coins_new, None)
   \<and> CoinView_addOutput CoinView_new ex_outpoint ex_burn
       = Inr (CoinView_add CoinView_new ''aa'' Coins_new)
   \<and> CoinView_addCoin CoinView_new
         (CoinEntry_toCoin (CoinEntry_fromOutput ex_burn) ''aa'' 0)
       = Inr (CoinView_add CoinView_new ''aa'' Coins_new, None)
   \<and> CoinView_has (CoinView_add CoinView_new ''aa'' Coins_new) ''aa''"
proof -
  have h: "hash (prevout ex_input) = ''aa''" "prevout ex_input = ex_outpoint"
    by (simp_all add: ex_input_def ex_outpoint_def)
  have n: "\<not> CoinView_has CoinView_new (hash (prevout ex_input))"
    by (simp add: CoinView_has_def CoinView_new_def)
  have u: "isUnspendable (out_script (entry_output (CoinEntry_fromOutput ex_burn)))"
    "isUnspendable (out_script ex_burn)"
    "isUnspendable (coin_script (CoinEntry_toCoin (CoinEntry_fromOutput ex_burn) ''aa'' 0))"
    "coin_hash (CoinEntry_toCoin (CoinEntry_fromOutput ex_burn) ''aa'' 0) = ''aa''"
    by (simp_all add: CoinEntry_fromOutput_def CoinEntry_new_def ex_burn_def CoinEntry_toCoin_def)
  show ?thesis
    using unspendable_installs_bucket [OF n,
        of "CoinEntry_fromOutput ex_burn" "\<lambda>p. Some (CoinEntry_fromOutput ex_burn)" ex_burn
           "CoinEntry_toCoin (CoinEntry_fromOutput ex_burn) ''aa'' 0"]
      n u h by simp
qed

section \<open>spendInputs\<close>

lemma resolve_cong:
  "CoinView_getEntry v' p = CoinView_getEntry v p \<Longrightarrow> resolve v' db p = resolve v db p"
  by (simp add: resolve_def)

lemma resolve_prevout:
  "prevout x = prevout y \<Longrightarrow> resolve v db x = resolve v db y"
  using getEntry_prevout [of x y v] by (simp add: resolve_def split: option.splits)

lemma hasEntry_getEntry: "CoinView_hasEntry v inp \<longleftrightarrow> CoinView_getEntry v inp \<noteq> None"
  by (simp add: CoinView_hasEntry_def CoinView_getEntry_def Coins_has_get split: option.splits)

lemma getEntry_add_empty:
  "cv_map v h = None \<Longrightarrow> CoinView_getEntry (CoinView_add v h Coins_new) x = CoinView_getEntry v x"
  by (simp add: getEntry_bucket bucket_add) (simp add: bucket_def)

lemma undo_add: "cv_undo (CoinView_add v h c) = cv_undo v"
  by (simp add: CoinView_add_def)

lemma readCoin_resolves:
  "\<exists>v1 r. CoinView_readCoin v db inp = Inr (v1, r)
     \<and> cv_undo v1 = cv_undo v
     \<and> (\<forall>x. CoinView_getEntry v1 x =
            (if prevout x = prevout inp then resolve v db inp else CoinView_getEntry v x))
     \<and> (r = None \<longrightarrow> resolve v db inp = None)
     \<and> (\<forall>c. r = Some c \<longrightarrow> cv_map v1 (hash (prevout inp)) = Some c
                \<and> Coins_get c (index (prevout inp)) = resolve v db inp
                \<and> resolve v db inp \<noteq> None)"
proof (cases "CoinView_getEntry v inp")
  case (Some e)
  then have h: "CoinView_hasEntry v inp" by (simp add: hasEntry_getEntry)
  obtain c where c: "cv_map v (hash (prevout inp)) = Some c"
    "Coins_get c (index (prevout inp)) = Some e"
    using Some by (auto simp: CoinView_getEntry_def CoinView_get_def split: option.splits)
  have r: "resolve v db inp = Some e" using Some by (simp add: resolve_def)
  have "CoinView_getEntry v x = resolve v db inp" if "prevout x = prevout inp" for x
    using getEntry_prevout [OF that, of v] Some r by simp
  then show ?thesis
    using h c r by (simp add: CoinView_readCoin_def CoinView_get_def)
next
  case None
  then have h: "\<not> CoinView_hasEntry v inp" by (simp add: hasEntry_getEntry)
  have same: "CoinView_getEntry v x = None" if "prevout x = prevout inp" for x
    using getEntry_prevout [OF that, of v] None by simp
  show ?thesis
  proof (cases "db (prevout inp)")
    case dn: None
    then have "resolve v db inp = None" using None by (simp add: resolve_def)
    then show ?thesis using h dn same by (simp add: CoinView_readCoin_def)
  next
    case (Some e)
    show ?thesis
    proof (cases "isUnspendable (out_script (entry_output e))")
      case True
      then have r: "resolve v db inp = None" using None Some by (simp add: resolve_def)
      have "CoinView_getEntry v x =
            (if prevout x = prevout inp then resolve v db inp else CoinView_getEntry v x)" for x
        using same [of x] r by simp
      then show ?thesis
        using h Some True r
        by (cases "cv_map v (hash (prevout inp))")
           (simp_all add: CoinView_readCoin_def addEntry_unspendable getEntry_add_empty undo_add)
    next
      case False
      then have r: "resolve v db inp = Some e" using None Some by (simp add: resolve_def)
      obtain v' c' where a: "CoinView_addEntry v (Outpoint_arg (prevout inp)) (Entry_arg e) = Inr (v', Some c')"
        and m: "cv_map v' (hash (prevout inp)) = Some c'"
        and u: "cv_undo v' = cv_undo v"
        and g: "\<And>j. Coins_get c' j =
                 (if j = index (prevout inp) \<and> Coins_get (bucket v (hash (prevout inp))) j = None then Some e
                  else Coins_get (bucket v (hash (prevout inp))) j)"
        using addEntry_typed [OF False, of v "prevout inp"] by blast
      obtain v'' r'' where a': "CoinView_addEntry v (Outpoint_arg (prevout inp)) (Entry_arg e) = Inr (v'', r'')"
        and ge: "\<And>x. CoinView_getEntry v'' x =
                 (if prevout x = prevout inp \<and> CoinView_getEntry v x = None then Some e
                  else CoinView_getEntry v x)"
        using getEntry_addEntry [OF False, of v "prevout inp"] by blast
      have vv: "v'' = v'" using a a' by simp
      have at: "Coins_get c' (index (prevout inp)) = Some e"
        using g [of "index (prevout inp)"] None by (simp add: getEntry_bucket)
      have "CoinView_getEntry v' x =
            (if prevout x = prevout inp then resolve v db inp else CoinView_getEntry v x)" for x
        using ge [of x] same [of x] r by (simp add: vv)
      then show ?thesis
        using h Some a m u at r by (simp add: CoinView_readCoin_def)
    qed
  qed
qed

lemma spend_step:
  assumes m: "cv_map v1 h = Some c"
    and g: "Coins_get c i = Some e" and ns: "\<not> spent e"
  shows "CoinView_spendFrom v1 c i = (True, c', v2) \<Longrightarrow>
         cv_undo (CoinView_add v2 h c') = cv_undo v1 @ [e\<lparr>spent := True\<rparr>]
         \<and> (\<forall>x. CoinView_getEntry (CoinView_add v2 h c') x =
               (if hash (prevout x) = h \<and> index (prevout x) = i then Some (e\<lparr>spent := True\<rparr>)
                else CoinView_getEntry v1 x))"
proof -
  assume s: "CoinView_spendFrom v1 c i = (True, c', v2)"
  have c': "c' = c\<lparr>coins_outputs := (coins_outputs c)[i := Some (e\<lparr>spent := True\<rparr>)]\<rparr>"
    and v2: "v2 = v1\<lparr>cv_undo := cv_undo v1 @ [e\<lparr>spent := True\<rparr>]\<rparr>"
    using s g ns by (auto simp: CoinView_spendFrom_def Coins_spend_def UndoCoins_push_def Let_def)
  have lt: "i < length (coins_outputs c)"
    using g by (auto simp: Coins_get_def split: if_splits)
  have get: "Coins_get c' j = (if j = i then Some (e\<lparr>spent := True\<rparr>) else Coins_get c j)" for j
    using lt by (auto simp: c' Coins_get_def nth_list_update)
  have b: "bucket v2 k = bucket v1 k" for k by (simp add: v2 bucket_def)
  have bc: "bucket v1 h = c" using m by (simp add: bucket_def)
  show ?thesis
    using get b bc by (auto simp: getEntry_bucket bucket_add) (simp add: v2 CoinView_add_def)
qed

lemma loop_step:
  obtains
    (fail) v1 where
      "resolve v db inp = None \<or> (\<exists>e. resolve v db inp = Some e \<and> spent e)"
      "\<And>rest. spendInputs_loop v db (inp # rest) = Inr (False, v1)"
      "cv_undo v1 = cv_undo v"
      "\<And>x. CoinView_getEntry v1 x =
            (if prevout x = prevout inp then resolve v db inp else CoinView_getEntry v x)"
  | (ok) v3 e where
      "resolve v db inp = Some e" "\<not> spent e"
      "\<And>rest. spendInputs_loop v db (inp # rest) = spendInputs_loop v3 db rest"
      "cv_undo v3 = cv_undo v @ [mark_spent e]"
      "\<And>x. CoinView_getEntry v3 x =
            (if prevout x = prevout inp then Some (mark_spent e) else CoinView_getEntry v x)"
proof -
  obtain v1 r where rc: "CoinView_readCoin v db inp = Inr (v1, r)"
    and u1: "cv_undo v1 = cv_undo v"
    and g1: "\<And>x. CoinView_getEntry v1 x =
            (if prevout x = prevout inp then resolve v db inp else CoinView_getEntry v x)"
    and rn: "r = None \<Longrightarrow> resolve v db inp = None"
    and rs: "\<And>c. r = Some c \<Longrightarrow> cv_map v1 (hash (prevout inp)) = Some c
                \<and> Coins_get c (index (prevout inp)) = resolve v db inp
                \<and> resolve v db inp \<noteq> None"
    using readCoin_resolves [of v db inp] by blast
  show thesis
  proof (cases r)
    case None
    then have "resolve v db inp = None \<or> (\<exists>e. resolve v db inp = Some e \<and> spent e)"
      using rn by simp
    moreover have "spendInputs_loop v db (inp # rest) = Inr (False, v1)" for rest
      using rc None by simp
    ultimately show thesis using u1 g1 by (rule fail)
  next
    case (Some c)
    then obtain e where re: "resolve v db inp = Some e" using rs by auto
    have m: "cv_map v1 (hash (prevout inp)) = Some c"
      and g: "Coins_get c (index (prevout inp)) = Some e"
      using rs [OF Some] re by simp_all
    show thesis
    proof (cases "spent e")
      case True
      have sf: "CoinView_spendFrom v1 c (index (prevout inp)) = (False, c, v1)"
        using g True by (simp add: CoinView_spendFrom_def Coins_spend_def)
      have "resolve v db inp = None \<or> (\<exists>e. resolve v db inp = Some e \<and> spent e)"
        using re True by simp
      moreover have "spendInputs_loop v db (inp # rest) = Inr (False, v1)" for rest
        using rc Some sf by simp
      ultimately show thesis using u1 g1 by (rule fail)
    next
      case False
      obtain c' v2 where sf: "CoinView_spendFrom v1 c (index (prevout inp)) = (True, c', v2)"
        using g False by (simp add: CoinView_spendFrom_def Coins_spend_def Let_def)
      let ?v3 = "CoinView_add v2 (hash (prevout inp)) c'"
      have st: "cv_undo ?v3 = cv_undo v1 @ [e\<lparr>spent := True\<rparr>]"
        "\<And>x. CoinView_getEntry ?v3 x =
               (if hash (prevout x) = hash (prevout inp) \<and> index (prevout x) = index (prevout inp)
                then Some (e\<lparr>spent := True\<rparr>) else CoinView_getEntry v1 x)"
        using spend_step [OF m g False sf] by auto
      have l: "spendInputs_loop v db (inp # rest) = spendInputs_loop ?v3 db rest" for rest
        using rc Some sf by simp
      have g3: "CoinView_getEntry ?v3 x =
            (if prevout x = prevout inp then Some (mark_spent e) else CoinView_getEntry v x)" for x
        using st(2) [of x] g1 [of x] by (auto simp: outpoint_eq mark_spent_def)
      have u3: "cv_undo ?v3 = cv_undo v @ [mark_spent e]"
        using st(1) u1 by (simp add: mark_spent_def)
      show thesis using re False l u3 g3 by (rule ok)
    qed
  qed
qed

lemma resolve_cached: "CoinView_getEntry v p = Some y \<Longrightarrow> resolve v db p = Some y"
  by (simp add: resolve_def)

lemma spendInputs_loop_resolves:
  "\<exists>ok v' es pre rest. spendInputs_loop v db ins = Inr (ok, v')
     \<and> ins = pre @ rest \<and> ok = (rest = [])
     \<and> cv_undo v' = cv_undo v @ es
     \<and> map Some es = map (\<lambda>p. map_option mark_spent (resolve v db p)) pre
     \<and> distinct (map prevout pre)
     \<and> (\<forall>p \<in> set pre. \<exists>e. resolve v db p = Some e \<and> \<not> spent e
            \<and> CoinView_getEntry v' p = Some (mark_spent e))
     \<and> (\<forall>inp post. rest = inp # post \<longrightarrow>
            (prevout inp \<in> prevout ` set pre \<or> resolve v db inp = None
               \<or> (\<exists>e. resolve v db inp = Some e \<and> spent e))
            \<and> (prevout inp \<notin> prevout ` set pre \<longrightarrow>
                  CoinView_getEntry v' inp = resolve v db inp))
     \<and> (\<forall>x. prevout x \<notin> prevout ` set pre
              \<and> (\<forall>inp post. rest = inp # post \<longrightarrow> prevout x \<noteq> prevout inp)
            \<longrightarrow> CoinView_getEntry v' x = CoinView_getEntry v x)
     \<and> (\<forall>x y. CoinView_getEntry v x = Some y \<and> spent y \<longrightarrow> CoinView_getEntry v' x = Some y)"
proof (induction ins arbitrary: v)
  case Nil
  show ?case
    by (rule exI [of _ True], rule exI [of _ v], rule exI [of _ "[]"], rule exI [of _ "[]"],
        rule exI [of _ "[]"]) simp
next
  case (Cons head tail)
  show ?case
  proof (cases rule: loop_step [of v db head])
    case (fail v1)
    have pers: "CoinView_getEntry v1 x = Some y" if "CoinView_getEntry v x = Some y" "spent y" for x y
    proof (cases "prevout x = prevout head")
      case True
      have "resolve v db head = resolve v db x" using resolve_prevout [OF True, of v db] by simp
      also have "\<dots> = Some y" using that(1) by (rule resolve_cached)
      finally show ?thesis using fail(4) [of x] True by simp
    next
      case False
      then show ?thesis using fail(4) [of x] that(1) by simp
    qed
    show ?thesis
      apply (rule exI [of _ False], rule exI [of _ v1], rule exI [of _ "[]"], rule exI [of _ "[]"],
        rule exI [of _ "head # tail"])
      apply (intro conjI)
      subgoal using fail(2) [of tail] .
      subgoal by simp
      subgoal by simp
      subgoal using fail(3) by simp
      subgoal by simp
      subgoal by simp
      subgoal by simp
      subgoal using fail(1) fail(4) [of head] by simp
      subgoal using fail(4) by simp
      subgoal using pers by blast
      done
  next
    case (ok v3 e)
    obtain b v' es pre rest where ih0:
      "spendInputs_loop v3 db tail = Inr (b, v')"
      "tail = pre @ rest" "b = (rest = [])"
      "cv_undo v' = cv_undo v3 @ es"
      "map Some es = map (\<lambda>p. map_option mark_spent (resolve v3 db p)) pre"
      "distinct (map prevout pre)"
      "\<forall>p \<in> set pre. \<exists>e. resolve v3 db p = Some e \<and> \<not> spent e
            \<and> CoinView_getEntry v' p = Some (mark_spent e)"
      "\<forall>inp post. rest = inp # post \<longrightarrow>
            (prevout inp \<in> prevout ` set pre \<or> resolve v3 db inp = None
               \<or> (\<exists>e. resolve v3 db inp = Some e \<and> spent e))
            \<and> (prevout inp \<notin> prevout ` set pre \<longrightarrow>
                  CoinView_getEntry v' inp = resolve v3 db inp)"
      "\<forall>x. prevout x \<notin> prevout ` set pre
              \<and> (\<forall>inp post. rest = inp # post \<longrightarrow> prevout x \<noteq> prevout inp)
            \<longrightarrow> CoinView_getEntry v' x = CoinView_getEntry v3 x"
      "\<forall>x y. CoinView_getEntry v3 x = Some y \<and> spent y \<longrightarrow> CoinView_getEntry v' x = Some y"
      using Cons.IH [of v3] by (elim exE conjE) (rule that, assumption+)
    note ih = ih0(1-6) ih0(7) [rule_format] ih0(8) [rule_format] ih0(9) [rule_format]
      ih0(10) [rule_format]
    have sp: "spent (mark_spent e)" by (simp add: mark_spent_def)
    have other: "resolve v3 db p = resolve v db p" if "prevout p \<noteq> prevout head" for p
      using ok(5) [of p] that by (intro resolve_cong) simp
    have same: "resolve v3 db p = Some (mark_spent e)" if "prevout p = prevout head" for p
      using ok(5) [of p] that by (intro resolve_cached) simp
    have K: "prevout p \<noteq> prevout head" if "p \<in> set pre" for p
    proof
      assume "prevout p = prevout head"
      from same [OF this] ih(7) [OF that] sp show False by auto
    qed
    have head_v': "CoinView_getEntry v' head = Some (mark_spent e)"
      using ih0(10) ok(5) [of head] sp by simp
    have c_undo: "cv_undo v' = cv_undo v @ (mark_spent e # es)"
      using ih(4) ok(4) by simp
    have c_map: "map Some (mark_spent e # es)
        = map (\<lambda>p. map_option mark_spent (resolve v db p)) (head # pre)"
    proof -
      have "map (\<lambda>p. map_option mark_spent (resolve v3 db p)) pre
          = map (\<lambda>p. map_option mark_spent (resolve v db p)) pre"
        using K other by (intro map_cong) simp_all
      with ih(5) ok(1) show ?thesis by simp
    qed
    have "prevout head \<notin> prevout ` set pre"
    proof
      assume "prevout head \<in> prevout ` set pre"
      then obtain p where "p \<in> set pre" "prevout p = prevout head" by force
      with K show False by blast
    qed
    then have c_dist: "distinct (map prevout (head # pre))"
      using ih(6) by simp
    have c_pre: "\<exists>e'. resolve v db p = Some e' \<and> \<not> spent e'
            \<and> CoinView_getEntry v' p = Some (mark_spent e')" if "p \<in> set (head # pre)" for p
    proof (cases "p = head")
      case True
      with ok(1) ok(2) head_v' show ?thesis by simp
    next
      case False
      with that have p: "p \<in> set pre" by simp
      from ih(7) [OF p] other [OF K [OF p]] show ?thesis by simp
    qed
    have c_fail: "(prevout inp \<in> prevout ` set (head # pre) \<or> resolve v db inp = None
               \<or> (\<exists>e. resolve v db inp = Some e \<and> spent e))
            \<and> (prevout inp \<notin> prevout ` set (head # pre) \<longrightarrow>
                  CoinView_getEntry v' inp = resolve v db inp)" if "rest = inp # post" for inp post
    proof (cases "prevout inp = prevout head")
      case True
      then show ?thesis by simp
    next
      case False
      from ih(8) [OF that] other [OF False] False show ?thesis by auto
    qed
    have c_frame: "CoinView_getEntry v' x = CoinView_getEntry v x"
      if "prevout x \<notin> prevout ` set (head # pre)"
        "\<And>inp post. rest = inp # post \<Longrightarrow> prevout x \<noteq> prevout inp" for x
    proof -
      have "CoinView_getEntry v' x = CoinView_getEntry v3 x"
        using that ih0(9) by auto
      also have "\<dots> = CoinView_getEntry v x" using ok(5) [of x] that(1) by simp
      finally show ?thesis .
    qed
    have c_pers: "CoinView_getEntry v' x = Some y" if "CoinView_getEntry v x = Some y" "spent y" for x y
    proof -
      have "prevout x \<noteq> prevout head"
      proof
        assume eq: "prevout x = prevout head"
        have "resolve v db head = resolve v db x" using resolve_prevout [OF eq, of v db] by simp
        also have "\<dots> = Some y" using that(1) by (rule resolve_cached)
        finally show False using ok(1) ok(2) that(2) by simp
      qed
      then have "CoinView_getEntry v3 x = Some y" using ok(5) [of x] that(1) by simp
      then show ?thesis using that(2) ih0(10) by blast
    qed
    show ?thesis
      apply (rule exI [of _ b], rule exI [of _ v'], rule exI [of _ "mark_spent e # es"],
        rule exI [of _ "head # pre"], rule exI [of _ rest])
      apply (intro conjI)
      subgoal using ok(3) [of tail] ih(1) by simp
      subgoal using ih(2) by simp
      subgoal using ih(3) .
      subgoal using c_undo .
      subgoal using c_map .
      subgoal using c_dist .
      subgoal using c_pre by blast
      subgoal using c_fail by blast
      subgoal using c_frame by blast
      subgoal using c_pers by blast
      done
  qed
qed

text \<open>
  C5. \<open>spendInputs\<close> always returns a boolean. The inputs split into those it spent, in
  order, and the rest; it returns true exactly when the rest is empty, which is exactly
  when the inputs refer to distinct outpoints and read-through finds an unspent coin for
  each of them, in the view or else in the store. Every input it spent was resolved that
  way, its entry is in the view that is left, marked spent, and the undo stack that is
  left is the one it found followed by exactly these entries, in input order. When it
  returns false, the first input of the rest is one whose outpoint an earlier input of
  the call already spent, or for which read-through finds no coin, or finds a coin that
  is already spent; the spends made before it stay applied. Entries of other outpoints
  are as they were, and entries that were spent stay spent.
\<close>

theorem spendInputs_no_rollback:
  "\<exists>ok v' es pre rest. CoinView_spendInputs v db t = Inr (ok, v')
     \<and> inputs t = pre @ rest \<and> ok = (rest = [])
     \<and> ok = (distinct (map prevout (inputs t))
              \<and> (\<forall>inp \<in> set (inputs t). \<exists>e. resolve v db inp = Some e \<and> \<not> spent e))
     \<and> cv_undo v' = cv_undo v @ es
     \<and> map Some es = map (\<lambda>p. map_option mark_spent (resolve v db p)) pre
     \<and> distinct (map prevout pre)
     \<and> (\<forall>p \<in> set pre. \<exists>e. resolve v db p = Some e \<and> \<not> spent e
            \<and> CoinView_getEntry v' p = Some (mark_spent e))
     \<and> (\<forall>inp post. rest = inp # post \<longrightarrow>
            (prevout inp \<in> prevout ` set pre \<or> resolve v db inp = None
               \<or> (\<exists>e. resolve v db inp = Some e \<and> spent e))
            \<and> (prevout inp \<notin> prevout ` set pre \<longrightarrow>
                  CoinView_getEntry v' inp = resolve v db inp))
     \<and> (\<forall>x. prevout x \<notin> prevout ` set pre
              \<and> (\<forall>inp post. rest = inp # post \<longrightarrow> prevout x \<noteq> prevout inp)
            \<longrightarrow> CoinView_getEntry v' x = CoinView_getEntry v x)
     \<and> (\<forall>x y. CoinView_getEntry v x = Some y \<and> spent y \<longrightarrow> CoinView_getEntry v' x = Some y)"
proof -
  obtain ok v' es pre rest where r:
      "spendInputs_loop v db (inputs t) = Inr (ok, v')"
      "inputs t = pre @ rest" "ok = (rest = [])"
      "cv_undo v' = cv_undo v @ es"
      "map Some es = map (\<lambda>p. map_option mark_spent (resolve v db p)) pre"
      "distinct (map prevout pre)"
      "\<forall>p \<in> set pre. \<exists>e. resolve v db p = Some e \<and> \<not> spent e
            \<and> CoinView_getEntry v' p = Some (mark_spent e)"
      "\<forall>inp post. rest = inp # post \<longrightarrow>
            (prevout inp \<in> prevout ` set pre \<or> resolve v db inp = None
               \<or> (\<exists>e. resolve v db inp = Some e \<and> spent e))
            \<and> (prevout inp \<notin> prevout ` set pre \<longrightarrow>
                  CoinView_getEntry v' inp = resolve v db inp)"
      "\<forall>x. prevout x \<notin> prevout ` set pre
              \<and> (\<forall>inp post. rest = inp # post \<longrightarrow> prevout x \<noteq> prevout inp)
            \<longrightarrow> CoinView_getEntry v' x = CoinView_getEntry v x"
      "\<forall>x y. CoinView_getEntry v x = Some y \<and> spent y \<longrightarrow> CoinView_getEntry v' x = Some y"
    using spendInputs_loop_resolves [of v db "inputs t"]
    by (elim exE conjE) (rule that, assumption+)
  let ?all = "distinct (map prevout (inputs t))
              \<and> (\<forall>inp \<in> set (inputs t). \<exists>e. resolve v db inp = Some e \<and> \<not> spent e)"
  have iff: "ok = ?all"
  proof (cases rest)
    case Nil
    then have "inputs t = pre" using r(2) by simp
    with r(6) r(7) have ?all by blast
    with Nil r(3) show ?thesis by simp
  next
    case (Cons inp post)
    have f: "prevout inp \<in> prevout ` set pre \<or> resolve v db inp = None
               \<or> (\<exists>e. resolve v db inp = Some e \<and> spent e)"
      using r(8) Cons by blast
    have mem: "inp \<in> set (inputs t)" using r(2) Cons by simp
    have "\<not> ?all"
    proof
      assume a: ?all
      then obtain e where e: "resolve v db inp = Some e" "\<not> spent e" using mem by blast
      with f have "prevout inp \<in> prevout ` set pre" by auto
      moreover have "distinct (map prevout pre @ prevout inp # map prevout post)"
        using a r(2) Cons by simp
      ultimately show False by auto
    qed
    with Cons r(3) show ?thesis by simp
  qed
  show ?thesis
    apply (rule exI [of _ ok], rule exI [of _ v'], rule exI [of _ es], rule exI [of _ pre],
      rule exI [of _ rest])
    apply (intro conjI)
    subgoal using r(1) by (simp add: CoinView_spendInputs_def)
    subgoal using r(2) .
    subgoal using r(3) .
    subgoal using iff .
    subgoal using r(4) .
    subgoal using r(5) .
    subgoal using r(6) .
    subgoal using r(7) .
    subgoal using r(8) .
    subgoal using r(9) .
    subgoal using r(10) .
    done
qed

lemma ex_resolve:
  "resolve ex_view ex_store ex_input = Some ex_entry1"
  "resolve ex_view ex_store ex_input_missing = None"
  "resolve ex_view ex_store_load ex_input = Some ex_entry1"
  "resolve ex_view ex_store_load ex_input_missing = Some ex_entry1"
  "\<not> spent ex_entry1"
  "prevout ex_input \<noteq> prevout ex_input_missing"
  by (simp_all add: resolve_def ex_view_def ex_store_def ex_store_load_def ex_input_def
      ex_input_missing_def ex_outpoint_def ex_entry1_def ex_pay_def CoinView_getEntry_def
      CoinView_get_def Coins_get_def)

theorem spendInputs_no_rollback_witness:
  "(\<exists>v'. CoinView_spendInputs ex_view ex_store_load ex_tx_spend = Inr (True, v')
        \<and> cv_undo v' = [mark_spent ex_entry1, mark_spent ex_entry1]
        \<and> CoinView_getEntry v' ex_input = Some (mark_spent ex_entry1)
        \<and> CoinView_getEntry v' ex_input_missing = Some (mark_spent ex_entry1))
   \<and> (\<exists>v'. CoinView_spendInputs ex_view ex_store ex_tx_spend = Inr (False, v')
        \<and> cv_undo v' = [mark_spent ex_entry1]
        \<and> CoinView_getEntry v' ex_input = Some (mark_spent ex_entry1)
        \<and> CoinView_getEntry v' ex_input_missing = None)"
proof -
  have i: "inputs ex_tx_spend = [ex_input, ex_input_missing]" by (simp add: ex_tx_spend_def)
  have u: "cv_undo ex_view = []" by (simp add: ex_view_def)
  have a: "\<exists>v'. CoinView_spendInputs ex_view ex_store_load ex_tx_spend = Inr (True, v')
        \<and> cv_undo v' = [mark_spent ex_entry1, mark_spent ex_entry1]
        \<and> CoinView_getEntry v' ex_input = Some (mark_spent ex_entry1)
        \<and> CoinView_getEntry v' ex_input_missing = Some (mark_spent ex_entry1)"
  proof -
    obtain ok v' es pre rest where r:
      "CoinView_spendInputs ex_view ex_store_load ex_tx_spend = Inr (ok, v')"
      "inputs ex_tx_spend = pre @ rest" "ok = (rest = [])"
      "ok = (distinct (map prevout (inputs ex_tx_spend))
              \<and> (\<forall>inp \<in> set (inputs ex_tx_spend).
                    \<exists>e. resolve ex_view ex_store_load inp = Some e \<and> \<not> spent e))"
      "cv_undo v' = cv_undo ex_view @ es"
      "map Some es = map (\<lambda>p. map_option mark_spent (resolve ex_view ex_store_load p)) pre"
      "\<forall>p \<in> set pre. \<exists>e. resolve ex_view ex_store_load p = Some e \<and> \<not> spent e
            \<and> CoinView_getEntry v' p = Some (mark_spent e)"
      using spendInputs_no_rollback [of ex_view ex_store_load ex_tx_spend]
      by (elim exE conjE) (rule that, assumption+)
    have ok using r(4) ex_resolve by (simp add: i)
    then have pre: "pre = [ex_input, ex_input_missing]" using r(2) r(3) i by simp
    have "map Some es = [Some (mark_spent ex_entry1), Some (mark_spent ex_entry1)]"
      using r(6) ex_resolve by (simp add: pre)
    then have es: "es = [mark_spent ex_entry1, mark_spent ex_entry1]"
      by (auto simp: map_eq_Cons_conv)
    show ?thesis using r(1) r(5) r(7) \<open>ok\<close> es u ex_resolve by (auto simp: pre)
  qed
  have b: "\<exists>v'. CoinView_spendInputs ex_view ex_store ex_tx_spend = Inr (False, v')
        \<and> cv_undo v' = [mark_spent ex_entry1]
        \<and> CoinView_getEntry v' ex_input = Some (mark_spent ex_entry1)
        \<and> CoinView_getEntry v' ex_input_missing = None"
  proof -
    obtain ok v' es pre rest where r:
      "CoinView_spendInputs ex_view ex_store ex_tx_spend = Inr (ok, v')"
      "inputs ex_tx_spend = pre @ rest" "ok = (rest = [])"
      "ok = (distinct (map prevout (inputs ex_tx_spend))
              \<and> (\<forall>inp \<in> set (inputs ex_tx_spend).
                    \<exists>e. resolve ex_view ex_store inp = Some e \<and> \<not> spent e))"
      "cv_undo v' = cv_undo ex_view @ es"
      "map Some es = map (\<lambda>p. map_option mark_spent (resolve ex_view ex_store p)) pre"
      "\<forall>p \<in> set pre. \<exists>e. resolve ex_view ex_store p = Some e \<and> \<not> spent e
            \<and> CoinView_getEntry v' p = Some (mark_spent e)"
      "\<forall>inp post. rest = inp # post \<longrightarrow>
            (prevout inp \<in> prevout ` set pre \<or> resolve ex_view ex_store inp = None
               \<or> (\<exists>e. resolve ex_view ex_store inp = Some e \<and> spent e))
            \<and> (prevout inp \<notin> prevout ` set pre \<longrightarrow>
                  CoinView_getEntry v' inp = resolve ex_view ex_store inp)"
      using spendInputs_no_rollback [of ex_view ex_store ex_tx_spend]
      by (elim exE conjE) (rule that, assumption+)
    have nok: "\<not> ok" using r(4) ex_resolve by (simp add: i)
    then obtain inp post where rest: "rest = inp # post" using r(3) by (cases rest) auto
    have pre: "pre = [ex_input]"
    proof (cases pre)
      case Nil
      then have "inp = ex_input" using r(2) rest i by simp
      with r(8) rest Nil ex_resolve show ?thesis by auto
    next
      case (Cons p ps)
      then show ?thesis using r(2) rest i by (cases ps) auto
    qed
    then have inp: "inp = ex_input_missing" using r(2) rest i by simp
    have "map Some es = [Some (mark_spent ex_entry1)]"
      using r(6) ex_resolve by (simp add: pre)
    then have es: "es = [mark_spent ex_entry1]" by (auto simp: map_eq_Cons_conv)
    have "CoinView_getEntry v' ex_input_missing = None"
      using r(8) rest inp pre ex_resolve by auto
    then show ?thesis using r(1) r(5) r(7) nok es u ex_resolve by (auto simp: pre)
  qed
  show ?thesis using a b by blast
qed

section \<open>Serialization of an entry\<close>

lemma readU32_writeU32: "readU32 (writeU32 [] w @ br) = Some (w, br)"
proof -
  have "ucast (ucast w :: byte) OR push_bit 8 (ucast (ucast (drop_bit 8 w) :: byte))
        OR push_bit 16 (ucast (ucast (drop_bit 16 w) :: byte))
        OR push_bit 24 (ucast (ucast (drop_bit 24 w) :: byte)) = w"
  proof (rule bit_word_eqI)
    fix n assume "n < LENGTH(32)"
    then consider "n < 8" | "8 \<le> n" "n < 16" | "16 \<le> n" "n < 24" | "24 \<le> n" "n < 32"
      by fastforce
    then show "bit (ucast (ucast w :: byte) OR push_bit 8 (ucast (ucast (drop_bit 8 w) :: byte))
        OR push_bit 16 (ucast (ucast (drop_bit 16 w) :: byte))
        OR push_bit 24 (ucast (ucast (drop_bit 24 w) :: byte)) :: 32 word) n = bit w n"
      by cases (auto simp: bit_simps)
  qed
  then show ?thesis by (simp add: writeU32_def)
qed

lemma mask29: "(0x1fffffff :: 32 word) = mask 29"
  by (simp add: mask_eq_exp_minus_1)

lemma small_word:
  assumes "0 \<le> h" "h < 2 ^ 29"
  shows "uint (word_of_int h :: 32 word) = h"
proof -
  have "h < 2 ^ 32" using assms(2) by simp
  then show ?thesis using assms(1) by (simp add: uint_word_of_int take_bit_int_eq_self flip: take_bit_eq_mod)
qed

lemma pack_and:
  assumes "uint (x :: 32 word) < 2 ^ 29"
  shows "(x OR push_bit 29 c) AND mask 29 = x"
proof -
  have "x AND mask 29 = x" using assms by (simp add: mask_eq_iff)
  moreover have "push_bit 29 c AND mask 29 = (0 :: 32 word)"
    by (simp add: take_bit_push_bit flip: take_bit_eq_mask)
  ultimately show ?thesis by (simp add: bit.conj_disj_distrib2)
qed

lemma pack_drop:
  assumes "uint (x :: 32 word) < 2 ^ 29"
  shows "drop_bit 29 (x OR push_bit 29 c) = take_bit 3 c"
proof -
  have "drop_bit 29 x = 0"
    using assms by (simp add: word_eq_iff_unsigned [where ?'a = int] unsigned_drop_bit_eq drop_bit_eq_div uint_div)
  moreover have "drop_bit 29 (push_bit 29 c) = take_bit 3 c"
    by (rule bit_word_eqI) (auto simp: bit_simps)
  ultimately show ?thesis by (simp add: drop_bit_or)
qed

lemma unpack_pack_height:
  assumes "- 1 \<le> h" "h \<le> 2 ^ 29 - 2"
  shows "unpack_height (pack_height h cb) = h" "unpack_coinbase (pack_height h cb) = cb"
proof -
  let ?h = "if h = - 1 then 0x1fffffff else h"
  let ?x = "word_of_int ?h :: 32 word"
  have r: "0 \<le> ?h" "?h < 2 ^ 29" using assms by auto
  have u: "uint ?x = ?h" using small_word [OF r] .
  have lt: "uint ?x < 2 ^ 29" using u r by simp
  have a: "(?x OR push_bit 29 c) AND 0x1fffffff = ?x" for c
    using pack_and [OF lt] by (simp only: mask29)
  have ne: "?x = 0x1fffffff \<longleftrightarrow> h = - 1"
  proof
    assume "?x = 0x1fffffff"
    then have "uint ?x = uint (0x1fffffff :: 32 word)" by simp
    then show "h = - 1" using u assms by (auto split: if_splits)
  next
    assume "h = - 1" then show "?x = 0x1fffffff" by simp
  qed
  show "unpack_height (pack_height h cb) = h"
    unfolding unpack_height_def pack_height_def Let_def a
    using ne u by (auto split: if_splits)
  have d: "drop_bit 29 (?x OR push_bit 29 c) = take_bit 3 c" for c
    using pack_drop [OF lt] .
  show "unpack_coinbase (pack_height h cb) = cb"
    unfolding unpack_coinbase_def pack_height_def Let_def d
    by simp
qed


lemma toWriter_append: "CoinEntry_toWriter cdc e bw = bw @ CoinEntry_toWriter cdc e []"
  by (simp add: CoinEntry_toWriter_def writeU32_def split: option.splits)

lemma decoded_eq:
  "CoinEntry_new\<lparr>version := version e, coinbase := coinbase e, height := height e,
      entry_output := entry_output e\<rparr> = decoded e"
  by (cases e) (simp add: CoinEntry_new_def decoded_def)

lemma fromReader_fresh:
  assumes h: "height_in_range e" and r: "raw e = None" and c: "codec_reads cdc e"
  shows "CoinEntry_fromReader cdc (CoinEntry_toWriter cdc e [] @ br) = Some (decoded e, br)"
proof -
  let ?w = "pack_height (height e) (coinbase e)"
  have u: "unpack_height ?w = height e" "unpack_coinbase ?w = coinbase e"
    using h unpack_pack_height [of "height e" "coinbase e"] by (simp_all add: height_in_range_def)
  have bytes: "CoinEntry_toWriter cdc e [] @ br =
      writeVarint cdc (version e) @ (writeU32 [] ?w @ (compress_output cdc (entry_output e) @ br))"
    using r by (simp add: CoinEntry_toWriter_def writeU32_def)
  have rv: "readVarint cdc (writeVarint cdc (version e) @ x) = Some (version e, x)" for x
    using c by (simp add: codec_reads_def)
  have ro: "decompress_output cdc (compress_output cdc (entry_output e) @ x) = Some (entry_output e, x)" for x
    using c by (simp add: codec_reads_def)
  show ?thesis
    unfolding bytes CoinEntry_fromReader_def
    by (simp add: rv readU32_writeU32 ro u decoded_eq)
qed

lemma toWriter_raw_consistent:
  "raw_consistent cdc e \<Longrightarrow> CoinEntry_toWriter cdc e [] = CoinEntry_toWriter cdc (decoded e) []"
  by (auto simp: raw_consistent_def decoded_def CoinEntry_toWriter_def)

lemma fromReader_toWriter:
  assumes "height_in_range e" "raw_consistent cdc e" "codec_reads cdc e"
  shows "CoinEntry_fromReader cdc (CoinEntry_toWriter cdc e [] @ br) = Some (decoded e, br)"
proof -
  have "height_in_range (decoded e)" "raw (decoded e) = None" "codec_reads cdc (decoded e)"
    using assms by (simp_all add: height_in_range_def decoded_def codec_reads_def)
  from fromReader_fresh [OF this] show ?thesis
    by (simp add: toWriter_raw_consistent [OF assms(2)]) (simp add: decoded_def)
qed



lemma unary_read_write: "unary_read (unary_write n @ br) = Some (n, br)"
  by (induction n) (simp_all add: unary_write_def)

lemma ex_decompress_compress: "ex_decompress (ex_compress out @ br) = Some (out, br)"
  by (cases out, cases "out_script out")
     (simp add: ex_decompress_def ex_compress_def unary_read_write)

lemma ex_codec_reads: "codec_reads ex_codec e"
  by (simp add: codec_reads_def ex_codec_def unary_read_write ex_decompress_compress)

lemma ex_codec_sizes: "codec_sizes ex_codec e"
  by (simp add: codec_sizes_def ex_codec_def unary_write_def)


section \<open>The fast form of a view\<close>

lemma toFast_loop_eq:
  "toFast_loop cdc v ins bw = bw @ concat (map (fast_record cdc v) ins)"
proof (induction ins arbitrary: bw)
  case Nil
  then show ?case by simp
next
  case (Cons inp rest)
  show ?case
  proof (cases "CoinView_getEntry v inp")
    case None
    then show ?thesis by (simp add: Cons.IH fast_record_def writeU8_def)
  next
    case (Some e)
    then show ?thesis
      using toWriter_append [of cdc e "writeU8 bw 1"]
      by (simp add: Cons.IH fast_record_def writeU8_def)
  qed
qed

lemma getSize_eq:
  "raw_consistent cdc e \<Longrightarrow> codec_sizes cdc e \<Longrightarrow>
     CoinEntry_getSize cdc e = length (CoinEntry_toWriter cdc e [])"
  by (auto simp: raw_consistent_def codec_sizes_def CoinEntry_getSize_def CoinEntry_toWriter_def
      writeU32_def)

lemma getFastSize_loop_eq:
  assumes "\<forall>inp \<in> set ins. \<forall>e. CoinView_getEntry v inp = Some e \<longrightarrow> fast_entry_ok cdc e"
  shows "getFastSize_loop cdc v ins sz + length ins
           = sz + length (concat (map (fast_record cdc v) ins))"
  using assms
proof (induction ins arbitrary: sz)
  case Nil
  then show ?case by simp
next
  case (Cons inp rest)
  have ih: "getFastSize_loop cdc v rest s + length rest
           = s + length (concat (map (fast_record cdc v) rest))" for s
    using Cons.IH [of s] Cons.prems by simp
  show ?case
  proof (cases "CoinView_getEntry v inp")
    case None
    then have "fast_record cdc v inp = [0]" by (simp add: fast_record_def)
    with None show ?thesis using ih [of sz] by simp
  next
    case (Some e)
    then have "fast_entry_ok cdc e" using Cons.prems by simp
    then have "CoinEntry_getSize cdc e = length (CoinEntry_toWriter cdc e [])"
      by (simp add: fast_entry_ok_def getSize_eq)
    moreover have "fast_record cdc v inp = 1 # CoinEntry_toWriter cdc e []"
      using Some by (simp add: fast_record_def)
    ultimately show ?thesis
      using Some ih [of "sz + CoinEntry_getSize cdc e"] by simp
  qed
qed

lemma getEntry_addEntry_unspendable:
  assumes "isUnspendable (out_script (entry_output e))"
  shows "\<exists>v'. CoinView_addEntry v (Outpoint_arg p) (Entry_arg e) = Inr (v', None)
           \<and> (\<forall>x. CoinView_getEntry v' x = CoinView_getEntry v x)"
  using assms
  by (cases "cv_map v (hash p)") (simp_all add: addEntry_unspendable getEntry_add_empty)

lemma fromFast_loop_roundtrip:
  assumes "\<forall>inp \<in> set ins. \<forall>e. CoinView_getEntry v inp = Some e \<longrightarrow> fast_entry_ok cdc e"
    and "\<forall>x. CoinView_getEntry acc x = None
            \<or> CoinView_getEntry acc x = Option.bind (CoinView_getEntry v x) carried"
  shows "\<exists>acc'. fromFast_loop cdc acc (concat (map (fast_record cdc v) ins) @ br) ins = Inr (acc', br)
      \<and> (\<forall>x. CoinView_getEntry acc' x = None
            \<or> CoinView_getEntry acc' x = Option.bind (CoinView_getEntry v x) carried)
      \<and> (\<forall>x. CoinView_getEntry acc x \<noteq> None \<longrightarrow> CoinView_getEntry acc' x = CoinView_getEntry acc x)
      \<and> (\<forall>inp \<in> set ins.
            CoinView_getEntry acc' inp = Option.bind (CoinView_getEntry v inp) carried)"
  using assms
proof (induction ins arbitrary: acc)
  case Nil
  then show ?case by simp
next
  case (Cons inp rest)
  let ?rest = "concat (map (fast_record cdc v) rest) @ br"
  have ok_rest: "\<forall>i \<in> set rest. \<forall>e. CoinView_getEntry v i = Some e \<longrightarrow> fast_entry_ok cdc e"
    using Cons.prems(1) by simp
  show ?case
  proof (cases "CoinView_getEntry v inp")
    case None
    obtain acc' where ih: "fromFast_loop cdc acc ?rest rest = Inr (acc', br)"
      "\<forall>x. CoinView_getEntry acc' x = None
            \<or> CoinView_getEntry acc' x = Option.bind (CoinView_getEntry v x) carried"
      "\<forall>x. CoinView_getEntry acc x \<noteq> None \<longrightarrow> CoinView_getEntry acc' x = CoinView_getEntry acc x"
      "\<forall>i \<in> set rest. CoinView_getEntry acc' i = Option.bind (CoinView_getEntry v i) carried"
      using Cons.IH [OF ok_rest Cons.prems(2)] by blast
    have fr: "fast_record cdc v inp = [0]" using None by (simp add: fast_record_def)
    have run: "fromFast_loop cdc acc (concat (map (fast_record cdc v) (inp # rest)) @ br) (inp # rest)
                 = Inr (acc', br)"
      using fr ih(1) by simp
    have "CoinView_getEntry acc' inp = Option.bind (CoinView_getEntry v inp) carried"
      using spec [OF ih(2), of inp] None by auto
    then show ?thesis using run ih(2) ih(3) ih(4) by simp
  next
    case (Some e)
    then have ok: "fast_entry_ok cdc e" using Cons.prems(1) by simp
    have fr: "fast_record cdc v inp = 1 # CoinEntry_toWriter cdc e []"
      using Some by (simp add: fast_record_def)
    have rd: "CoinEntry_fromReader cdc (CoinEntry_toWriter cdc e [] @ ?rest) = Some (decoded e, ?rest)"
      using ok by (intro fromReader_toWriter) (simp_all add: fast_entry_ok_def)
    have dout: "entry_output (decoded e) = entry_output e" by (simp add: decoded_def)
    have "\<exists>acc1 r. CoinView_addEntry acc (Outpoint_arg (prevout inp)) (Entry_arg (decoded e)) = Inr (acc1, r)
        \<and> (\<forall>x. CoinView_getEntry acc1 x =
                 (if prevout x = prevout inp \<and> CoinView_getEntry acc x = None then carried e
                  else CoinView_getEntry acc x))"
    proof (cases "isUnspendable (out_script (entry_output e))")
      case True
      then have c: "carried e = None" by (simp add: carried_def)
      from True obtain v' where
        "CoinView_addEntry acc (Outpoint_arg (prevout inp)) (Entry_arg (decoded e)) = Inr (v', None)"
        "\<forall>x. CoinView_getEntry v' x = CoinView_getEntry acc x"
        using getEntry_addEntry_unspendable [of "decoded e" acc "prevout inp"] dout by auto
      then show ?thesis using c by auto
    next
      case False
      then have c: "carried e = Some (decoded e)" by (simp add: carried_def)
      from False obtain v' r' where
        "CoinView_addEntry acc (Outpoint_arg (prevout inp)) (Entry_arg (decoded e)) = Inr (v', r')"
        "\<forall>x. CoinView_getEntry v' x =
                 (if prevout x = prevout inp \<and> CoinView_getEntry acc x = None then Some (decoded e)
                  else CoinView_getEntry acc x)"
        using getEntry_addEntry [of "decoded e" acc "prevout inp"] dout by auto
      then show ?thesis using c by auto
    qed
    then obtain acc1 r where
      a: "CoinView_addEntry acc (Outpoint_arg (prevout inp)) (Entry_arg (decoded e)) = Inr (acc1, r)"
      and g: "\<And>x. CoinView_getEntry acc1 x =
                 (if prevout x = prevout inp \<and> CoinView_getEntry acc x = None then carried e
                  else CoinView_getEntry acc x)"
      by blast
    have inv1: "\<forall>x. CoinView_getEntry acc1 x = None
            \<or> CoinView_getEntry acc1 x = Option.bind (CoinView_getEntry v x) carried"
    proof
      fix x
      show "CoinView_getEntry acc1 x = None
            \<or> CoinView_getEntry acc1 x = Option.bind (CoinView_getEntry v x) carried"
      proof (cases "prevout x = prevout inp \<and> CoinView_getEntry acc x = None")
        case True
        then have "CoinView_getEntry v x = Some e"
          using Some getEntry_prevout [of x inp v] by simp
        with True g [of x] show ?thesis by simp
      next
        case False
        with g [of x] spec [OF Cons.prems(2), of x] show ?thesis by auto
      qed
    qed
    have at_inp: "CoinView_getEntry acc1 inp = carried e"
    proof (cases "CoinView_getEntry acc inp = None")
      case True
      with g [of inp] show ?thesis by simp
    next
      case False
      have "CoinView_getEntry acc inp = Option.bind (CoinView_getEntry v inp) carried"
        using False spec [OF Cons.prems(2), of inp] by auto
      with False g [of inp] Some show ?thesis by simp
    qed
    have mono1: "CoinView_getEntry acc1 x = CoinView_getEntry acc x" if "CoinView_getEntry acc x \<noteq> None" for x
      using g [of x] that by simp
    obtain acc' where ih: "fromFast_loop cdc acc1 ?rest rest = Inr (acc', br)"
      "\<forall>x. CoinView_getEntry acc' x = None
            \<or> CoinView_getEntry acc' x = Option.bind (CoinView_getEntry v x) carried"
      "\<forall>x. CoinView_getEntry acc1 x \<noteq> None \<longrightarrow> CoinView_getEntry acc' x = CoinView_getEntry acc1 x"
      "\<forall>i \<in> set rest. CoinView_getEntry acc' i = Option.bind (CoinView_getEntry v i) carried"
      using Cons.IH [OF ok_rest inv1] by blast
    have run: "fromFast_loop cdc acc (concat (map (fast_record cdc v) (inp # rest)) @ br) (inp # rest)
                 = Inr (acc', br)"
      using fr rd a ih(1) by simp
    have tgt: "Option.bind (CoinView_getEntry v inp) carried = carried e"
      using Some by simp
    have "CoinView_getEntry acc' inp = carried e"
    proof (cases "carried e")
      case None
      then show ?thesis using spec [OF ih(2), of inp] tgt by auto
    next
      case (Some d)
      then show ?thesis using spec [OF ih(3), of inp] at_inp by simp
    qed
    then have "CoinView_getEntry acc' inp = Option.bind (CoinView_getEntry v inp) carried"
      using tgt by simp
    moreover have "\<forall>x. CoinView_getEntry acc x \<noteq> None \<longrightarrow> CoinView_getEntry acc' x = CoinView_getEntry acc x"
      using ih(3) mono1 by simp
    ultimately show ?thesis using run ih(2) ih(4) by simp
  qed
qed

lemma pack_height_sentinel: "unpack_height (pack_height 0x1fffffff cb) = - 1"
proof -
  have "uint (0x1fffffff :: 32 word) < 2 ^ 29" by simp
  from pack_and [OF this] show ?thesis
    by (simp add: unpack_height_def pack_height_def Let_def mask29)
qed

text \<open>
  C4, as the code has it. \<open>toFast\<close> appends, for each input of the transaction in order,
  the byte 0 when the view has no entry for the input, and the byte 1 followed by the
  entry's record when it has one. When the record of every entry cached for an input can
  be written and read back (height in \<open>[-1, 2^29 - 2]\<close>, consistent cache, codec within
  its contract), \<open>getFastSize\<close> is the length of these bytes, and \<open>fromFast\<close> on them
  with the same transaction reads them to the end and gives a view that has, for every
  input that had an entry, an entry with the same version, height, coinbase flag and
  output, but unspent and without cache whatever the original's \<open>spent\<close> flag was, and
  that has nothing for every input that had no entry (or an entry with an unspendable
  script, which \<open>addEntry\<close> drops).
\<close>

theorem fast_form_roundtrip:
  assumes "\<forall>inp \<in> set (inputs t). \<forall>e. CoinView_getEntry v inp = Some e \<longrightarrow> fast_entry_ok cdc e"
  shows "CoinView_toFast cdc v bw t = bw @ concat (map (fast_record cdc v) (inputs t))
       \<and> CoinView_getFastSize cdc v t = length (CoinView_toFast cdc v [] t)
       \<and> (\<exists>v'. CoinView_fromFast cdc (CoinView_toFast cdc v [] t) t = Inr (v', [])
             \<and> (\<forall>inp \<in> set (inputs t).
                   CoinView_getEntry v' inp = Option.bind (CoinView_getEntry v inp) carried))"
proof -
  have a: "CoinView_toFast cdc v b t = b @ concat (map (fast_record cdc v) (inputs t))" for b
    by (simp add: CoinView_toFast_def toFast_loop_eq)
  have b: "CoinView_getFastSize cdc v t = length (CoinView_toFast cdc v [] t)"
    using getFastSize_loop_eq [OF assms, of 0] getFastSize_loop_eq [OF assms, of "length (inputs t)"]
    by (simp add: CoinView_getFastSize_def a)
  have e: "\<forall>x. CoinView_getEntry CoinView_new x = None
            \<or> CoinView_getEntry CoinView_new x = Option.bind (CoinView_getEntry v x) carried"
    by (simp add: CoinView_getEntry_def CoinView_get_def CoinView_new_def)
  have c: "\<exists>v'. CoinView_fromFast cdc (CoinView_toFast cdc v [] t) t = Inr (v', [])
             \<and> (\<forall>inp \<in> set (inputs t).
                   CoinView_getEntry v' inp = Option.bind (CoinView_getEntry v inp) carried)"
    using fromFast_loop_roundtrip [OF assms e, of "[]"]
    by (auto simp: CoinView_fromFast_def a)
  show ?thesis using a b c by blast
qed

lemma ex_entry1_ok: "fast_entry_ok ex_codec ex_entry1"
  by (simp add: fast_entry_ok_def ex_codec_reads ex_codec_sizes)
     (simp add: ex_entry1_def height_in_range_def raw_consistent_def)

lemma ex_entry1_spent_ok: "fast_entry_ok ex_codec (mark_spent ex_entry1)"
  by (simp add: fast_entry_ok_def ex_codec_reads ex_codec_sizes)
     (simp add: ex_entry1_def mark_spent_def height_in_range_def raw_consistent_def)

theorem fast_form_roundtrip_witness:
  "fast_entry_ok ex_codec ex_entry1
   \<and> CoinView_getEntry ex_view ex_input = Some ex_entry1
   \<and> CoinView_getEntry ex_view ex_input_missing = None
   \<and> CoinView_getFastSize ex_codec ex_view ex_tx_spend
        = length (CoinView_toFast ex_codec ex_view [] ex_tx_spend)
   \<and> (\<exists>v'. CoinView_fromFast ex_codec (CoinView_toFast ex_codec ex_view [] ex_tx_spend)
               ex_tx_spend = Inr (v', [])
          \<and> CoinView_getEntry v' ex_input = Some ex_entry1
          \<and> CoinView_getEntry v' ex_input_missing = None)"
proof -
  have g1: "CoinView_getEntry ex_view ex_input = Some ex_entry1"
    by (simp add: ex_view_def ex_input_def ex_outpoint_def CoinView_getEntry_def
        CoinView_get_def Coins_get_def)
  have g2: "CoinView_getEntry ex_view ex_input_missing = None"
    by (simp add: ex_view_def ex_input_missing_def CoinView_getEntry_def CoinView_get_def)
  have i: "inputs ex_tx_spend = [ex_input, ex_input_missing]"
    by (simp add: ex_tx_spend_def)
  have d: "carried ex_entry1 = Some ex_entry1"
    by (simp add: carried_def decoded_def ex_entry1_def ex_pay_def)
  have h: "\<forall>inp \<in> set (inputs ex_tx_spend).
             \<forall>e. CoinView_getEntry ex_view inp = Some e \<longrightarrow> fast_entry_ok ex_codec e"
    using g1 g2 ex_entry1_ok by (simp add: i)
  show ?thesis
    using fast_form_roundtrip [OF h, of "[]"] g1 g2 ex_entry1_ok d by (auto simp: i)
qed

text \<open>
  C4 as stated fails for a cached coin that is spent, the state of every coin after
  \<open>spendInputs\<close>: the view \<open>ex_view_spent\<close> holds the entry for the input marked spent,
  and the view decoded from its fast form holds it unspent, so the original entry is not
  reproduced.
\<close>

theorem fast_form_counterexample:
  "CoinView_getEntry ex_view_spent ex_input = Some (mark_spent ex_entry1)
   \<and> CoinView_fromFast ex_codec (CoinView_toFast ex_codec ex_view_spent [] ex_tx_spend_one)
        ex_tx_spend_one = Inr (ex_view_fast, [])
   \<and> CoinView_getEntry ex_view_fast ex_input = Some ex_entry1
   \<and> CoinView_getEntry ex_view_fast ex_input \<noteq> CoinView_getEntry ex_view_spent ex_input"
proof -
  have g: "CoinView_getEntry ex_view_spent ex_input = Some (mark_spent ex_entry1)"
    by (simp add: ex_view_spent_def ex_input_def ex_outpoint_def CoinView_getEntry_def
        CoinView_get_def Coins_get_def mark_spent_def)
  have f: "CoinView_getEntry ex_view_fast ex_input = Some ex_entry1"
    by (simp add: ex_view_fast_def ex_input_def ex_outpoint_def CoinView_getEntry_def
        CoinView_get_def Coins_get_def)
  have ne: "ex_entry1 \<noteq> mark_spent ex_entry1"
    by (simp add: ex_entry1_def mark_spent_def)
  have bytes: "CoinView_toFast ex_codec ex_view_spent [] ex_tx_spend_one
      = 1 # CoinEntry_toWriter ex_codec (mark_spent ex_entry1) []"
    using g toWriter_append [of ex_codec "mark_spent ex_entry1" "[1]"]
    by (simp add: CoinView_toFast_def ex_tx_spend_one_def writeU8_def)
  have rd: "CoinEntry_fromReader ex_codec (CoinEntry_toWriter ex_codec (mark_spent ex_entry1) [])
      = Some (ex_entry1, [])"
    using fromReader_toWriter [of "mark_spent ex_entry1" ex_codec "[]"] ex_entry1_spent_ok
    by (simp add: fast_entry_ok_def) (simp add: decoded_def mark_spent_def ex_entry1_def)
  have add: "CoinView_addEntry CoinView_new (Outpoint_arg (prevout ex_input)) (Entry_arg ex_entry1)
      = Inr (ex_view_fast, Some \<lparr>coins_hash = NULL_HASH, coins_outputs = [Some ex_entry1]\<rparr>)"
    by (simp add: CoinView_addEntry_def map_key_def CoinView_get_def CoinView_new_def
        CoinView_add_def Coins_new_def Coins_has_def Coins_add_def ex_view_fast_def
        ex_input_def ex_outpoint_def ex_entry1_def ex_pay_def)
  have "CoinView_fromFast ex_codec (CoinView_toFast ex_codec ex_view_spent [] ex_tx_spend_one)
        ex_tx_spend_one = Inr (ex_view_fast, [])"
    unfolding bytes by (simp add: CoinView_fromFast_def ex_tx_spend_one_def rd add)
  with g f ne show ?thesis by simp
qed

section \<open>Entries that the operations of the view store\<close>

text \<open>
  What the code itself builds meets the conditions on cached entries in the statements
  above: a fresh entry has no cache and \<open>toRaw\<close> caches the entry's own encoding, so
  caches are consistent. \<open>Coins.fromTX\<close> and \<open>addEntry\<close> never store an entry with an
  unspendable script, so a view built through them holds none.
\<close>

lemma toRaw_consistent:
  assumes "raw_consistent cdc e"
  shows "fst (CoinEntry_toRaw cdc e) = CoinEntry_toWriter cdc e []"
    and "raw_consistent cdc (snd (CoinEntry_toRaw cdc e))"
  using assms
  by (auto simp: CoinEntry_toRaw_def raw_consistent_def CoinEntry_toWriter_def Let_def
      split: option.splits)

lemma fresh_entries_raw:
  "raw (CoinEntry_fromOutput out) = None" "raw (CoinEntry_fromCoin cn) = None"
  "CoinEntry_fromTX t i h = Inr e \<Longrightarrow> raw e = None"
  "CoinEntry_fromReader cdc br = Some (e, br') \<Longrightarrow> raw e = None"
  by (auto simp: CoinEntry_fromOutput_def CoinEntry_fromCoin_def CoinEntry_fromTX_def
      CoinEntry_fromReader_def CoinEntry_new_def split: if_splits option.splits)

lemma fromTX_loop_spendable:
  assumes "fromTX_loop t h n outs k = Inr outs'" "k \<le> n" "n = length (outputs t)"
    and "\<forall>e. Some e \<in> set outs \<longrightarrow> \<not> isUnspendable (out_script (entry_output e))"
  shows "\<forall>e. Some e \<in> set outs' \<longrightarrow> \<not> isUnspendable (out_script (entry_output e))"
  using assms
proof (induction k arbitrary: outs)
  case 0
  then show ?case by simp
next
  case (Suc k)
  let ?i = "n - Suc k"
  show ?case
  proof (cases "isUnspendable (out_script (outputs t ! ?i))")
    case True
    with Suc.prems have "fromTX_loop t h n (outs @ [None]) k = Inr outs'" by simp
    from Suc.IH [OF this] Suc.prems show ?thesis by simp
  next
    case False
    have lt: "?i < length (outputs t)" using Suc.prems by simp
    let ?e = "CoinEntry_new\<lparr>version := tx_version t, height := h,
                  coinbase := tx_isCoinbase t, entry_output := outputs t ! ?i\<rparr>"
    have "fromTX_loop t h n (outs @ [Some ?e]) k = Inr outs'"
      using Suc.prems(1) False lt by (simp add: CoinEntry_fromTX_def)
    from Suc.IH [OF this] Suc.prems False show ?thesis by auto
  qed
qed

lemma Coins_fromTX_spendable:
  assumes "Coins_fromTX t h = Inr c" "Coins_get c i = Some e"
  shows "\<not> isUnspendable (out_script (entry_output e))"
proof -
  obtain outs where l: "fromTX_loop t h (length (outputs t)) [] (length (outputs t)) = Inr outs"
    and c: "c = Coins_cleanup \<lparr>coins_hash = tx_hash t, coins_outputs = outs\<rparr>"
    using assms(1) by (auto simp: Coins_fromTX_def split: sum.splits)
  have lt: "i < length (coins_outputs c)"
    using assms(2) by (auto simp: Coins_get_def split: if_splits)
  then have "coins_outputs c ! i = Some e"
    using assms(2) by (simp add: Coins_get_def)
  with nth_mem [OF lt] have "Some e \<in> set (coins_outputs c)" by simp
  then have "Some e \<in> set outs"
    by (auto simp: c Coins_cleanup_def dest: in_set_takeD)
  with fromTX_loop_spendable [OF l] show ?thesis by simp
qed

lemma addEntry_keeps_spendable:
  assumes "CoinView_addEntry v (Outpoint_arg p) (Entry_arg e) = Inr (v', r)"
    and "\<forall>x y. CoinView_getEntry v x = Some y \<longrightarrow> \<not> isUnspendable (out_script (entry_output y))"
    and "CoinView_getEntry v' x = Some y"
  shows "\<not> isUnspendable (out_script (entry_output y))"
proof (cases "isUnspendable (out_script (entry_output e))")
  case True
  have "CoinView_getEntry v' x = CoinView_getEntry v x"
    using assms(1) True
    by (auto simp: addEntry_unspendable getEntry_bucket bucket_add split: option.splits)
       (simp add: bucket_def)
  with assms show ?thesis by simp
next
  case False
  from getEntry_addEntry [OF False, of v p] assms(1)
  have "CoinView_getEntry v' x =
          (if prevout x = p \<and> CoinView_getEntry v x = None then Some e
           else CoinView_getEntry v x)"
    by auto
  with assms False show ?thesis by (auto split: if_splits)
qed

end
